theory Spec2Isabelle
  imports Complex_Main "HOL-Library.Multiset" "HOL-Library.Word" "HOL-Library.Log_Nat"
begin

unbundle bit_operations_syntax

section \<open>Numbers, matrices and tours\<close>

text \<open>
  The library computes with JavaScript numbers, which are IEEE 754 binary64 values. A
  finite double is modelled by the real number that it stands for, and the two
  infinities are constructors of their own. The entries of a distance matrix are finite;
  a sum of finite numbers is finite or infinite, so \<open>NaN\<close> does not occur in the sums and
  comparisons that are modelled. City ids and array indices, which the source keeps
  non-negative, are natural numbers; where the source stores the sentinel \<open>-1\<close> in an
  array that is returned, the array holds integers.

  The sums of distances, which the algorithms accumulate and compare, are rounded as
  the machine rounds them. The quotient of \<^verbatim>\<open>calculateEfficiency\<close>, and the coordinates,
  angles and Euclidean distances of points, are exact reals.
\<close>

datatype num = Num real | Infinity | NegInfinity

text \<open>The comparison \<^verbatim>\<open><\<close> of two numbers.\<close>

fun num_less :: "num \<Rightarrow> num \<Rightarrow> bool" where
  "num_less (Num a) (Num b) = (a < b)"
| "num_less (Num a) Infinity = True"
| "num_less (Num a) NegInfinity = False"
| "num_less Infinity b = False"
| "num_less NegInfinity (Num b) = True"
| "num_less NegInfinity Infinity = True"
| "num_less NegInfinity NegInfinity = False"

text \<open>
  The numbers in the order of \<^verbatim>\<open><\<close>, for the statements and the proofs.
\<close>

instantiation num :: linorder
begin

definition less_num :: "num \<Rightarrow> num \<Rightarrow> bool" where
  "less_num a b = num_less a b"

definition less_eq_num :: "num \<Rightarrow> num \<Rightarrow> bool" where
  "less_eq_num a b = (\<not> num_less b a)"

instance
proof
  fix x y z :: num
  show "(x < y) = (x \<le> y \<and> \<not> y \<le> x)"
    unfolding less_num_def less_eq_num_def by (cases x; cases y) auto
  show "x \<le> x" unfolding less_eq_num_def by (cases x) auto
  show "x \<le> y \<Longrightarrow> y \<le> z \<Longrightarrow> x \<le> z"
    unfolding less_eq_num_def by (cases x; cases y; cases z) auto
  show "x \<le> y \<Longrightarrow> y \<le> x \<Longrightarrow> x = y"
    unfolding less_eq_num_def by (cases x; cases y) auto
  show "x \<le> y \<or> y \<le> x" unfolding less_eq_num_def by (cases x; cases y) auto
qed

end

text \<open>
  Rounding to the nearest double, ties to even. \<open>round_half_even q\<close> is the integer
  nearest to \<open>q\<close>, the even one of the two when \<open>q\<close> lies half-way. The doubles are the
  numbers \<open>m * 2^k / 2^1074\<close> with \<open>m < 2^53\<close> (and \<open>m * 2^k < 2^2098\<close>): a magnitude
  \<open>a\<close> is scaled to \<open>q = a * 2^1074\<close>, the exponent \<open>k\<close> is the number of bits of the
  integer part of \<open>q\<close> above 53, which is 0 for the subnormal numbers and the first
  binade, and the 53-bit significand is \<open>q / 2^k\<close> rounded. A rounded magnitude of
  \<open>2^1024\<close> or more is an overflow, which gives an infinity.
\<close>

definition round_half_even :: "real \<Rightarrow> int" where
  "round_half_even q =
     (let f = \<lfloor>q\<rfloor>; d = q - of_int f
      in if d < 1 / 2 then f else if 1 / 2 < d then f + 1 else if even f then f else f + 1)"

definition round_magnitude :: "real \<Rightarrow> real" where
  "round_magnitude a =
     (let q = a * 2 ^ 1074;
          k = nat (bitlen \<lfloor>q\<rfloor> - 53);
          m = round_half_even (q / 2 ^ k)
      in of_int m * 2 ^ k / 2 ^ 1074)"

definition round_double :: "real \<Rightarrow> num" where
  "round_double x =
     (let r = round_magnitude \<bar>x\<bar>
      in if 2 ^ 1024 \<le> r then (if x < 0 then NegInfinity else Infinity)
         else Num (if x < 0 then - r else r))"

text \<open>
  The sum \<^verbatim>\<open>a + b\<close> of a number and a finite number: the exact sum, rounded. A real
  number is a double when rounding does not change it.
\<close>

fun num_add :: "num \<Rightarrow> real \<Rightarrow> num" where
  "num_add (Num a) b = round_double (a + b)"
| "num_add Infinity b = Infinity"
| "num_add NegInfinity b = NegInfinity"

definition is_double :: "real \<Rightarrow> bool" where
  "is_double x = (round_double x = Num x)"

text \<open>
  For the evaluation of the functions on matrices of small natural numbers, a copy of
  the rounding that is not evaluated; the equation \<open>round_double_code\<close> below returns a
  natural number below \<open>2^53\<close> as it is and leaves every other rounding to the copy.
\<close>

definition round_double_unevaluated :: "real \<Rightarrow> num" where
  [code del]: "round_double_unevaluated x = round_double x"

text \<open>
  A distance matrix is an array of rows. \<open>matrix g n\<close> says that it is \<open>n\<close> by \<open>n\<close>,
  and \<open>doubles g n\<close> that its entries are doubles; the functions below read \<open>g ! i ! j\<close> where the source reads \<open>graph[i][j]\<close>, and
  every theorem about them assumes the reads stay inside the matrix.
\<close>

type_synonym graph = "real list list"

definition matrix :: "graph \<Rightarrow> nat \<Rightarrow> bool" where
  "matrix g n = (length g = n \<and> list_all (\<lambda>row. length row = n) g)"

definition symmetric :: "graph \<Rightarrow> nat \<Rightarrow> bool" where
  "symmetric g n = (\<forall>i<n. \<forall>j<n. g ! i ! j = g ! j ! i)"

definition non_negative :: "graph \<Rightarrow> nat \<Rightarrow> bool" where
  "non_negative g n = (\<forall>i<n. \<forall>j<n. 0 \<le> g ! i ! j)"

definition doubles :: "graph \<Rightarrow> nat \<Rightarrow> bool" where
  "doubles g n = (\<forall>i<n. \<forall>j<n. is_double (g ! i ! j))"

text \<open>A tour over \<open>n\<close> cities is a permutation of \<open>0, ..., n - 1\<close>.\<close>

definition is_tour :: "nat \<Rightarrow> nat list \<Rightarrow> bool" where
  "is_tour n t = (mset t = mset [0..<n])"

subsection \<open>utils.js\<close>

text \<open>
  \<^verbatim>\<open>calculateTourLength\<close>: the loop \<open>for i = 0 .. n - 1\<close> adds
  \<open>graph[tour[i]][tour[(i + 1) % n]]\<close> to a total that starts at 0.
\<close>

definition calculateTourLength :: "nat list \<Rightarrow> graph \<Rightarrow> num" where
  "calculateTourLength tour g =
     (let n = length tour
      in fold (\<lambda>i totalDistance.
                 num_add totalDistance (g ! (tour ! i) ! (tour ! ((i + 1) mod n))))
           [0..<n] (Num 0))"

text \<open>\<^verbatim>\<open>calculateEfficiency\<close>: 0 for a solution length that is not positive.\<close>

definition calculateEfficiency :: "real \<Rightarrow> real \<Rightarrow> real" where
  "calculateEfficiency solutionLength optimalLength =
     (if solutionLength \<le> 0 then 0 else (optimalLength / solutionLength) * 100)"

subsection \<open>JavaScript arrays of booleans\<close>

text \<open>
  \<^verbatim>\<open>new Array(n).fill(false)\<close> is \<open>replicate n False\<close>. A write \<^verbatim>\<open>a[i] = v\<close> past
  the end extends the array; the slots in between are holes, which read as
  \<^verbatim>\<open>undefined\<close>, as does every index past the end. The source only tests such an
  array with \<^verbatim>\<open>!a[i]\<close>, where \<^verbatim>\<open>undefined\<close> counts as false.
\<close>

definition arr_set :: "bool list \<Rightarrow> nat \<Rightarrow> bool \<Rightarrow> bool list" where
  "arr_set a i v =
     (if i < length a then a[i := v] else a @ replicate (i - length a) False @ [v])"

definition arr_get :: "bool list \<Rightarrow> nat \<Rightarrow> bool" where
  "arr_get a i = (i < length a \<and> a ! i)"

subsection \<open>nearest-neighbor.js\<close>

text \<open>
  The inner \<^verbatim>\<open>for\<close> loop of \<^verbatim>\<open>generateTour\<close>: the pair is \<open>(nearest, nearestDist)\<close>,
  \<open>None\<close> standing for the initial \<open>nearest = -1\<close>.
\<close>

definition nearest_scan :: "graph \<Rightarrow> nat \<Rightarrow> bool list \<Rightarrow> nat \<Rightarrow> nat option \<times> num" where
  "nearest_scan g n visited current =
     fold (\<lambda>i (nearest, nearestDist).
             if \<not> arr_get visited i \<and> num_less (Num (g ! current ! i)) nearestDist
             then (Some i, Num (g ! current ! i))
             else (nearest, nearestDist))
       [0..<n] (None, Infinity)"

text \<open>
  The \<^verbatim>\<open>while (tour.length < n)\<close> loop. When no city is found (\<open>nearest = -1\<close>) the
  source changes nothing and tests the same condition again, so the loop does not end:
  the result \<open>None\<close> of the model is a run that does not return.
\<close>

partial_function (option) nn_while ::
  "graph \<Rightarrow> nat \<Rightarrow> bool list \<Rightarrow> nat list \<Rightarrow> nat \<Rightarrow> nat list option" where
  "nn_while g n visited tour current =
     (if length tour < n then
        (case fst (nearest_scan g n visited current) of
           None \<Rightarrow> nn_while g n visited tour current
         | Some nearest \<Rightarrow>
             nn_while g n (arr_set visited nearest True) (tour @ [nearest]) nearest)
      else Some tour)"

declare nn_while.simps [code]

text \<open>
  \<^verbatim>\<open>generateTour(points, graph, startCity = 0)\<close> of the nearest-neighbour heuristic.
  Only the length of \<open>points\<close> is used. The default argument is the caller passing 0.
\<close>

definition nearestNeighbor_generateTour :: "'p list \<Rightarrow> graph \<Rightarrow> nat \<Rightarrow> nat list option" where
  "nearestNeighbor_generateTour points g startCity =
     (let n = length points;
          visited = replicate n False;
          current = startCity;
          tour = [] @ [current];
          visited = arr_set visited current True
      in nn_while g n visited tour current)"

subsection \<open>genetic.js\<close>

text \<open>
  \<^verbatim>\<open>crossover(parent1, parent2)\<close>, the order crossover. The two calls of
  \<^verbatim>\<open>Math.random()\<close> are the parameters \<open>r1\<close> and \<open>r2\<close>, numbers in \<open>[0, 1)\<close>.
  The child starts as \<^verbatim>\<open>new Array(n).fill(-1)\<close>; \<open>used\<close> is the \<^verbatim>\<open>Set\<close> of the
  copied cities. The first loop copies \<open>parent1[start..end]\<close>, the second walks
  \<open>parent2\<close> from position \<open>end + 1\<close> (cyclically) and writes the unused cities from slot
  \<open>(end + 1) % n\<close> on. For parents of length \<open>n \<ge> 1\<close> every write is inside the child.
\<close>

definition crossover :: "nat list \<Rightarrow> nat list \<Rightarrow> real \<Rightarrow> real \<Rightarrow> int list" where
  "crossover parent1 parent2 r1 r2 =
     (let n = length parent1;
          start = nat \<lfloor>r1 * real n\<rfloor>;
          end' = start + nat \<lfloor>r2 * real (n - start)\<rfloor>;
          child = replicate n (- 1);
          used = {};
          (child, used) =
            fold (\<lambda>i (child, used).
                    (child[i := int (parent1 ! i)], insert (parent1 ! i) used))
              [start..<end' + 1] (child, used);
          idx = (end' + 1) mod n;
          (child, idx) =
            fold (\<lambda>i (child, idx).
                    let city = parent2 ! ((end' + 1 + i) mod n)
                    in if city \<notin> used
                       then (child[idx := int city], (idx + 1) mod n)
                       else (child, idx))
              [0..<n] (child, idx)
      in child)"

subsection \<open>Points\<close>

text \<open>
  A point object \<^verbatim>\<open>{ x, y, angle, id }\<close>. \<^verbatim>\<open>distance\<close> is
  \<^verbatim>\<open>Math.hypot(end.y - start.y, end.x - start.x)\<close>; it reads only \<open>x\<close> and \<open>y\<close>, so it
  takes any object that extends a point.
\<close>

record point =
  p_x :: real
  p_y :: real
  p_angle :: real
  p_id :: nat

definition distance :: "'a point_scheme \<Rightarrow> 'b point_scheme \<Rightarrow> real" where
  "distance start end' = sqrt ((p_y end' - p_y start)\<^sup>2 + (p_x end' - p_x start)\<^sup>2)"

subsection \<open>zigzag.js\<close>

text \<open>
  The objects of \<open>tourPoints\<close>: \<^verbatim>\<open>{ ...points[idx], originalId: idx }\<close>.
\<close>

record tour_point = point +
  originalId :: nat

definition with_originalId :: "point \<Rightarrow> nat \<Rightarrow> tour_point" where
  "with_originalId p idx =
     \<lparr>p_x = p_x p, p_y = p_y p, p_angle = p_angle p, p_id = p_id p, originalId = idx\<rparr>"

text \<open>
  \<^verbatim>\<open>shouldZigzag(i, pts)\<close>. The index \<^verbatim>\<open>(i - 1 + pts.length) % pts.length\<close> is written
  \<open>(i + length pts - 1) mod length pts\<close>, the same number for every \<open>i \<ge> 0\<close> and
  non-empty \<open>pts\<close>, since subtraction on \<open>nat\<close> stops at 0.
\<close>

definition shouldZigzag :: "nat \<Rightarrow> 'a point_scheme list \<Rightarrow> bool" where
  "shouldZigzag i pts =
     (let p1 = pts ! ((i + length pts - 1) mod length pts);
          p2 = pts ! (i mod length pts);
          p3 = pts ! ((i + 1) mod length pts);
          p4 = pts ! ((i + 2) mod length pts);
          segment1 = distance p1 p2;
          segment3 = distance p3 p4;
          zigZagSegment1 = distance p1 p3;
          zigZagSegment3 = distance p2 p4
      in zigZagSegment1 + zigZagSegment3 < segment1 + segment3)"

text \<open>
  The \<^verbatim>\<open>while (i < tourPoints.length)\<close> loop of \<^verbatim>\<open>optimize\<close>, with the state
  \<open>(newTour, i)\<close>; the result is \<open>newTour\<close> when the loop ends.
\<close>

function zigzag_while :: "tour_point list \<Rightarrow> nat list \<Rightarrow> nat \<Rightarrow> nat list" where
  "zigzag_while tourPoints newTour i =
     (if i < length tourPoints then
        (if length tourPoints - i > 2 \<and> shouldZigzag i tourPoints then
           zigzag_while tourPoints
             (newTour @ [originalId (tourPoints ! (i - 1)),
                         originalId (tourPoints ! ((i + 1) mod length tourPoints)),
                         originalId (tourPoints ! (i mod length tourPoints)),
                         originalId (tourPoints ! ((i + 2) mod length tourPoints))])
             (i + 3)
         else
           zigzag_while tourPoints
             (newTour @ [originalId (tourPoints ! (i - 1)),
                         originalId (tourPoints ! (i mod length tourPoints))])
             (i + 1))
      else newTour)"
  by pat_completeness auto
termination
  by (relation "measure (\<lambda>(tourPoints, newTour, i). length tourPoints - i)") auto

declare zigzag_while.simps [simp del]

text \<open>
  \<^verbatim>\<open>[...new Set(newTour)]\<close>: the elements are added to the set one by one, an element
  that is already there is ignored, and the spread lists the set in insertion order.
\<close>

definition spread_Set :: "'a list \<Rightarrow> 'a list" where
  "spread_Set xs = fold (\<lambda>x s. if x \<in> set s then s else s @ [x]) xs []"

text \<open>
  \<^verbatim>\<open>optimize(tourIndices, points, graph)\<close>; \<open>optimize_emitted\<close> is \<open>newTour\<close> as the
  loop leaves it, before the duplicates are removed. The matrix is not used.
\<close>

definition zigzag_tourPoints :: "nat list \<Rightarrow> point list \<Rightarrow> tour_point list" where
  "zigzag_tourPoints tourIndices points =
     map (\<lambda>idx. with_originalId (points ! idx) idx) tourIndices"

definition zigzag_emitted :: "nat list \<Rightarrow> point list \<Rightarrow> nat list" where
  "zigzag_emitted tourIndices points =
     zigzag_while (zigzag_tourPoints tourIndices points) [] 1"

definition zigzag_optimize :: "nat list \<Rightarrow> point list \<Rightarrow> graph \<Rightarrow> nat list" where
  "zigzag_optimize tourIndices points g = spread_Set (zigzag_emitted tourIndices points)"

subsection \<open>two-opt.js\<close>

text \<open>
  The innermost loop of \<^verbatim>\<open>improve\<close>, \<^verbatim>\<open>for (k = 0; k <= j - i - 1; k++)\<close>, copies the
  segment between \<open>i + 1\<close> and \<open>j\<close> of \<open>currentTour\<close> in reverse into \<open>newTour\<close>, which
  starts as a copy of \<open>currentTour\<close>.
\<close>

definition reverse_segment :: "nat list \<Rightarrow> nat \<Rightarrow> nat \<Rightarrow> nat list" where
  "reverse_segment currentTour i j =
     fold (\<lambda>k newTour. newTour[i + 1 + k := currentTour ! (j - k)]) [0..<j - i] currentTour"

text \<open>
  One step of the scan, at the pair \<open>(i, j)\<close>, on the state \<open>(currentTour, improved)\<close>:
  the pair \<open>i = 0\<close>, \<open>j = n - 1\<close> is skipped; otherwise the reversal is applied when it
  makes the two edges shorter, and the pass is marked as improving.
\<close>

definition two_opt_step ::
  "graph \<Rightarrow> nat \<Rightarrow> nat \<Rightarrow> nat \<Rightarrow> nat list \<times> bool \<Rightarrow> nat list \<times> bool" where
  "two_opt_step g n i j st =
     (let currentTour = fst st; improved = snd st
      in if j = n - 1 \<and> i = 0 then (currentTour, improved)
         else
           let currentDistance =
                 num_add (Num (g ! (currentTour ! i) ! (currentTour ! (i + 1))))
                   (g ! (currentTour ! j) ! (currentTour ! ((j + 1) mod n)));
               newDistance =
                 num_add (Num (g ! (currentTour ! i) ! (currentTour ! j)))
                   (g ! (currentTour ! (i + 1)) ! (currentTour ! ((j + 1) mod n)))
           in if num_less newDistance currentDistance
              then (reverse_segment currentTour i j, True)
              else (currentTour, improved))"

text \<open>
  The two nested \<^verbatim>\<open>for\<close> loops of one pass: \<open>i\<close> from 0 to \<open>n - 2\<close>, \<open>j\<close> from \<open>i + 2\<close> to
  \<open>n - 1\<close>. The pass starts with \<open>improved = false\<close>.
\<close>

definition two_opt_pass :: "graph \<Rightarrow> nat \<Rightarrow> nat list \<Rightarrow> nat list \<times> bool" where
  "two_opt_pass g n currentTour =
     fold (\<lambda>i st. fold (\<lambda>j st. two_opt_step g n i j st) [i + 2..<n] st)
       [0..<n - 1] (currentTour, False)"

text \<open>
  The loop \<^verbatim>\<open>while (improved && iterations < maxIterations)\<close>, with the iteration cap a
  natural number.
\<close>

function two_opt_while ::
  "graph \<Rightarrow> nat \<Rightarrow> nat \<Rightarrow> nat list \<Rightarrow> bool \<Rightarrow> nat \<Rightarrow> nat list" where
  "two_opt_while g n maxIterations currentTour improved iterations =
     (if improved \<and> iterations < maxIterations then
        (let st = two_opt_pass g n currentTour
         in two_opt_while g n maxIterations (fst st) (snd st) (iterations + 1))
      else currentTour)"
  by pat_completeness auto
termination
  by (relation "measure (\<lambda>(g, n, maxIterations, currentTour, improved, iterations).
                  maxIterations - iterations)") auto

declare two_opt_while.simps [simp del]

text \<open>\<^verbatim>\<open>improve(tour, graph, maxIterations = 100)\<close>.\<close>

definition improve :: "nat list \<Rightarrow> graph \<Rightarrow> nat \<Rightarrow> nat list" where
  "improve tour g maxIterations = two_opt_while g (length tour) maxIterations tour True 0"

subsection \<open>Reference algorithms for 2-opt, written from the specification\<close>

text \<open>
  The pairs that a pass visits, in the order of the scan.
\<close>

definition scan_pairs :: "nat \<Rightarrow> (nat \<times> nat) list" where
  "scan_pairs n =
     concat (map (\<lambda>i. map (\<lambda>j. (i, j)) (filter (\<lambda>j. \<not> (i = 0 \<and> j = n - 1)) [i + 2..<n]))
               [0..<n - 1])"

definition improving :: "graph \<Rightarrow> nat \<Rightarrow> nat list \<Rightarrow> nat \<times> nat \<Rightarrow> bool" where
  "improving g n t p =
     (case p of (i, j) \<Rightarrow>
        num_less
          (num_add (Num (g ! (t ! i) ! (t ! j))) (g ! (t ! (i + 1)) ! (t ! ((j + 1) mod n))))
          (num_add (Num (g ! (t ! i) ! (t ! (i + 1)))) (g ! (t ! j) ! (t ! ((j + 1) mod n)))))"

text \<open>
  The first-improvement reference of the specification: find the first improving pair
  of the scan, apply its reversal, and scan again from the top of the changed tour;
  stop when a scan finds no improving pair or after \<open>cap\<close> scans.
\<close>

fun improve_restart_ref :: "graph \<Rightarrow> nat \<Rightarrow> nat list \<Rightarrow> nat list" where
  "improve_restart_ref g 0 t = t"
| "improve_restart_ref g (Suc cap) t =
     (case find (improving g (length t) t) (scan_pairs (length t)) of
        None \<Rightarrow> t
      | Some (i, j) \<Rightarrow> improve_restart_ref g cap (reverse_segment t i j))"

text \<open>
  The sweep reference: a pass visits every pair of the scan once, applies the reversal
  at each pair that improves the tour as it is at that moment, and goes on with the
  next pair; a new pass starts from the top only after the pass is over, when it has
  applied a reversal and the cap is not reached.
\<close>

fun sweep :: "graph \<Rightarrow> nat \<Rightarrow> (nat \<times> nat) list \<Rightarrow> nat list \<Rightarrow> nat list \<times> bool" where
  "sweep g n [] t = (t, False)"
| "sweep g n (p # ps) t =
     (if improving g n t p
      then (fst (sweep g n ps (reverse_segment t (fst p) (snd p))), True)
      else sweep g n ps t)"

fun improve_sweep_ref :: "graph \<Rightarrow> nat \<Rightarrow> nat list \<Rightarrow> nat list" where
  "improve_sweep_ref g 0 t = t"
| "improve_sweep_ref g (Suc cap) t =
     (let st = sweep g (length t) (scan_pairs (length t)) t
      in if snd st then improve_sweep_ref g cap (fst st) else fst st)"

subsection \<open>Lengths of paths and tours, for the statements\<close>

text \<open>
  The exact sum of the consecutive edge distances of a list of cities, and the same with
  the edge from the last city back to the first. These are sums of real numbers,
  without rounding; the length that the program computes is \<open>calculateTourLength\<close>.
\<close>

fun path_length :: "graph \<Rightarrow> nat list \<Rightarrow> real" where
  "path_length g [] = 0"
| "path_length g [x] = 0"
| "path_length g (x # y # r) = g ! x ! y + path_length g (y # r)"

definition tour_length :: "graph \<Rightarrow> nat list \<Rightarrow> real" where
  "tour_length g t = (if t = [] then 0 else path_length g t + g ! last t ! hd t)"

text \<open>
  The total that a running sum reaches from \<open>acc\<close> when the consecutive edge distances of
  a list of cities are added to it one after the other, each sum rounded.
\<close>

fun path_cost :: "graph \<Rightarrow> num \<Rightarrow> nat list \<Rightarrow> num" where
  "path_cost g acc [] = acc"
| "path_cost g acc [x] = acc"
| "path_cost g acc (x # y # r) = path_cost g (num_add acc (g ! x ! y)) (y # r)"

subsection \<open>brute-force.js: exhaustive search\<close>

text \<open>
  The destructuring swap \<^verbatim>\<open>[arr[a], arr[b]] = [arr[b], arr[a]]\<close>.
\<close>

definition swap :: "nat list \<Rightarrow> nat \<Rightarrow> nat \<Rightarrow> nat list" where
  "swap arr a b = arr[a := arr ! b, b := arr ! a]"

text \<open>
  The variables that \<^verbatim>\<open>permute\<close> changes: the array \<open>arr\<close>, which it permutes in
  place, and \<open>bestTour\<close> and \<open>bestLength\<close> of the enclosing function.
\<close>

record bf_state =
  arr :: "nat list"
  bestTour :: "nat list"
  bestLength :: num

text \<open>
  \<^verbatim>\<open>permute(arr, start)\<close>. The parameter \<open>n\<close> is \<^verbatim>\<open>arr.length\<close>, which the swaps do not
  change; the test \<^verbatim>\<open>start === arr.length - 1\<close> is \<open>start + 1 = n\<close> (for the empty array
  the right-hand side is \<open>-1\<close> in the source and the test fails, as here). At a complete
  arrangement the length is compared with the best one so far; otherwise every
  position \<open>i \<ge> start\<close> is swapped to \<open>start\<close>, the rest is permuted, and the swap is
  undone.
\<close>

function permute :: "graph \<Rightarrow> nat \<Rightarrow> nat \<Rightarrow> bf_state \<Rightarrow> bf_state" where
  "permute g n start s =
     (if start + 1 = n then
        (let length' = calculateTourLength (arr s) g
         in if num_less length' (bestLength s)
            then s\<lparr>bestLength := length', bestTour := arr s\<rparr>
            else s)
      else
        fold (\<lambda>i s.
                let s1 = s\<lparr>arr := swap (arr s) start i\<rparr>;
                    s2 = permute g n (start + 1) s1
                in s2\<lparr>arr := swap (arr s2) start i\<rparr>)
          [start..<n] s)"
  by pat_completeness auto
termination
  by (relation "measure (\<lambda>(g, n, start, s). n - start)") auto

declare permute.simps [simp del]

text \<open>The object \<^verbatim>\<open>{ tour, length }\<close> that \<^verbatim>\<open>bruteForceExact\<close> returns.\<close>

record bf_result =
  bf_tour :: "nat list"
  bf_length :: num

definition bruteForceExact :: "graph \<Rightarrow> nat \<Rightarrow> bf_result" where
  "bruteForceExact g n =
     (let cities = [0..<n];
          s = \<lparr>arr = cities, bestTour = cities,
               bestLength = calculateTourLength cities g\<rparr>;
          s = permute g (length cities) 1 s
      in \<lparr>bf_tour = bestTour s, bf_length = bestLength s\<rparr>)"

text \<open>
  The invariant of the search, for the proofs: the array is a permutation of the cities,
  the best tour is one too, with the first city of the array, and the best length is
  its computed length.
\<close>

definition bf_inv :: "graph \<Rightarrow> nat \<Rightarrow> bf_state \<Rightarrow> bool" where
  "bf_inv g n s = (mset (arr s) = mset [0..<n] \<and> is_tour n (bestTour s)
                   \<and> take 1 (bestTour s) = take 1 (arr s)
                   \<and> bestLength s = calculateTourLength (bestTour s) g)"

subsection \<open>brute-force.js: Held-Karp\<close>

text \<open>
  The bit masks are JavaScript's 32-bit integers. \<^verbatim>\<open>1 << i\<close> shifts by \<open>i\<close> modulo 32.
  A key \<^verbatim>\<open>`${mask},${i}`\<close> of the two \<^verbatim>\<open>Map\<close>s is the pair of the mask and the city;
  the loops only store keys with a city \<open>i \<ge> 1\<close>.
\<close>

type_synonym mask = "32 word"

definition shl1 :: "nat \<Rightarrow> mask" where
  "shl1 i = push_bit (i mod 32) 1"

type_synonym hk_dp = "mask \<times> nat \<Rightarrow> num option"
type_synonym hk_parent = "mask \<times> nat \<Rightarrow> int option"

text \<open>
  \<^verbatim>\<open>generateSubsets(start, current, count)\<close> for a given \<open>size\<close>: the list of the masks
  that the calls push onto \<open>subsets\<close>, in the order of the pushes.
\<close>

function generateSubsets :: "nat \<Rightarrow> nat \<Rightarrow> nat \<Rightarrow> mask \<Rightarrow> nat \<Rightarrow> mask list" where
  "generateSubsets n size' start current count' =
     (if count' = size' then [current]
      else concat (map (\<lambda>i. generateSubsets n size' (i + 1) (current OR shl1 i) (count' + 1))
                     [start..<n]))"
  by pat_completeness auto
termination
  by (relation "measure (\<lambda>(n, size', start, current, count'). n - start)") auto

declare generateSubsets.simps [simp del]

text \<open>
  The body of the innermost loop, for one candidate \<open>prev\<close>, on the pair
  \<open>(bestDist, bestPrev)\<close>; the two \<^verbatim>\<open>continue\<close> statements leave the pair unchanged.
\<close>

definition hk_try_prev ::
  "graph \<Rightarrow> hk_dp \<Rightarrow> mask \<Rightarrow> nat \<Rightarrow> nat \<Rightarrow> num \<times> int \<Rightarrow> num \<times> int" where
  "hk_try_prev g dp prevMask last' prev b =
     (if prevMask AND shl1 prev = 0 then b
      else if dp (prevMask, prev) = None then b
      else
        let dist = num_add (the (dp (prevMask, prev))) (g ! prev ! last')
        in if num_less dist (fst b) then (dist, int prev) else b)"

text \<open>
  The body of the loop over \<open>last\<close>, for one mask, on the two maps.
\<close>

definition hk_try_last ::
  "graph \<Rightarrow> nat \<Rightarrow> mask \<Rightarrow> nat \<Rightarrow> hk_dp \<times> hk_parent \<Rightarrow> hk_dp \<times> hk_parent" where
  "hk_try_last g n mask' last' st =
     (if mask' AND shl1 last' = 0 then st
      else
        let prevMask = mask' XOR shl1 last'
        in if prevMask = 0 then st
           else
             let b = fold (hk_try_prev g (fst st) prevMask last') [1..<n] (Infinity, - 1)
             in if num_less (fst b) Infinity
                then ((fst st)((mask', last') \<mapsto> fst b),
                      (snd st)((mask', last') \<mapsto> snd b))
                else st)"

text \<open>The loop over the subset sizes, each with its subsets, each with its last cities.\<close>

definition hk_fill :: "graph \<Rightarrow> nat \<Rightarrow> hk_dp \<times> hk_parent \<Rightarrow> hk_dp \<times> hk_parent" where
  "hk_fill g n st =
     fold (\<lambda>size' st.
             fold (\<lambda>mask' st. fold (hk_try_last g n mask') [1..<n] st)
               (generateSubsets n size' 1 0 0) st)
       [2..<n] st"

text \<open>The base case: the direct edges from city 0.\<close>

definition hk_base :: "graph \<Rightarrow> nat \<Rightarrow> hk_dp \<times> hk_parent" where
  "hk_base g n =
     fold (\<lambda>i st. ((fst st)((shl1 i, i) \<mapsto> Num (g ! 0 ! i)), (snd st)((shl1 i, i) \<mapsto> 0)))
       [1..<n] (Map.empty, Map.empty)"

text \<open>The search for the last city of the best tour, on \<open>(minLength, lastCity)\<close>.\<close>

definition hk_close :: "graph \<Rightarrow> nat \<Rightarrow> hk_dp \<Rightarrow> mask \<Rightarrow> num \<times> int" where
  "hk_close g n dp fullMask =
     fold (\<lambda>i b.
             if dp (fullMask, i) \<noteq> None then
               (let dist = num_add (the (dp (fullMask, i))) (g ! i ! 0)
                in if num_less dist (fst b) then (dist, int i) else b)
             else b)
       [1..<n] (Infinity, - 1)"

text \<open>
  The reconstruction loop \<^verbatim>\<open>while (current !== 0 && current !== undefined)\<close>. The value
  \<open>None\<close> of \<open>current\<close> is \<^verbatim>\<open>undefined\<close>, which \<^verbatim>\<open>parent.get\<close> returns for a key that is
  not in the map; no key has a negative city. A map in which the walk never reaches 0
  or a missing key keeps the loop running: the result \<open>None\<close> of the function is a run
  that does not return.
\<close>

definition hk_parent_get :: "hk_parent \<Rightarrow> mask \<Rightarrow> int \<Rightarrow> int option" where
  "hk_parent_get parent m c = (if c < 0 then None else parent (m, nat c))"

partial_function (option) hk_walk ::
  "hk_parent \<Rightarrow> int list \<Rightarrow> mask \<Rightarrow> int option \<Rightarrow> int list option" where
  "hk_walk parent tour currentMask current =
     (if current = None then Some tour
      else
        let c = the current
        in if c = 0 then Some tour
           else hk_walk parent (tour @ [c]) (currentMask XOR shl1 (nat (c mod 32)))
                  (hk_parent_get parent currentMask c))"

declare hk_walk.simps [code]

record hk_result =
  hk_tour :: "int list"
  hk_length :: num

definition heldKarp :: "graph \<Rightarrow> nat \<Rightarrow> hk_result option" where
  "heldKarp g n =
     (let st = hk_fill g n (hk_base g n);
          fullMask = (shl1 n - 1) XOR 1;
          b = hk_close g n (fst st) fullMask
      in map_option (\<lambda>tour. \<lparr>hk_tour = tour, hk_length = fst b\<rparr>)
           (hk_walk (snd st) [0] fullMask (Some (snd b))))"

text \<open>
  \<^verbatim>\<open>findOptimal(graph, n)\<close>. The result \<^verbatim>\<open>null\<close> is \<open>Null\<close>; the object of the exhaustive
  search is given the types of the object of \<^verbatim>\<open>heldKarp\<close>. The outer \<open>option\<close> is
  \<open>None\<close> for a run that does not return.
\<close>

datatype 'a nullable = Null | Object 'a

definition findOptimal :: "graph \<Rightarrow> nat \<Rightarrow> hk_result nullable option" where
  "findOptimal g n =
     (if n > 20 then Some Null
      else if n \<le> 10 then
        (let r = bruteForceExact g n
         in Some (Object \<lparr>hk_tour = map int (bf_tour r), hk_length = bf_length r\<rparr>))
      else map_option Object (heldKarp g n))"

subsection \<open>Notions for the proofs about Held-Karp\<close>

text \<open>
  The set of the cities of a mask; the paths that start at city 0, visit exactly the
  cities of a set and end in a given city (listed without the 0); what it means for a
  number to be the least computed cost of such a path, the cost being the running sum
  along the path from 0; and the step of a minimum search that starts at
  \<open>(Infinity, -1)\<close>.
\<close>

definition bits :: "mask \<Rightarrow> nat set" where
  "bits m = {k. bit m k}"

definition hpath :: "nat set \<Rightarrow> nat \<Rightarrow> nat list \<Rightarrow> bool" where
  "hpath S j p = (distinct p \<and> set p = S \<and> p \<noteq> [] \<and> last p = j)"

definition is_opt :: "graph \<Rightarrow> nat set \<Rightarrow> nat \<Rightarrow> num \<Rightarrow> bool" where
  "is_opt g S j v = ((\<exists>p. hpath S j p \<and> path_cost g (Num 0) (0 # p) = v)
                     \<and> (\<forall>p. hpath S j p \<longrightarrow> v \<le> path_cost g (Num 0) (0 # p)))"

definition min_step :: "(nat \<Rightarrow> num option) \<Rightarrow> nat \<Rightarrow> num \<times> int \<Rightarrow> num \<times> int" where
  "min_step val k b =
     (case val k of None \<Rightarrow> b
      | Some d \<Rightarrow> if num_less d (fst b) then (d, int k) else b)"

text \<open>
  The invariants of the table. Every entry is below \<open>Infinity\<close> and is the least cost of
  its paths. A key of a subset with at most \<open>k\<close> cities that is not in the table has
  paths of cost \<open>Infinity\<close> only (the running sums have overflowed). The parent map has
  the keys of the table; the parent of a key is 0 for a single city, and otherwise a
  city of the mask whose entry, with the edge to the city of the key added, is the
  entry of the key. And the order in which the table grows.
\<close>

definition hk_correct :: "graph \<Rightarrow> nat \<Rightarrow> hk_dp \<Rightarrow> bool" where
  "hk_correct g n dp =
     (\<forall>m j v. dp (m, j) = Some v \<longrightarrow>
        bits m \<subseteq> {1..<n} \<and> j \<in> bits m \<and> is_opt g (bits m) j v \<and> v < Infinity)"

definition hk_complete :: "graph \<Rightarrow> nat \<Rightarrow> nat \<Rightarrow> hk_dp \<Rightarrow> bool" where
  "hk_complete g n k dp =
     (\<forall>m j. bits m \<subseteq> {1..<n} \<and> j \<in> bits m \<and> card (bits m) \<le> k \<and> dp (m, j) = None
        \<longrightarrow> is_opt g (bits m) j Infinity)"

definition parent_ok :: "graph \<Rightarrow> hk_dp \<Rightarrow> hk_parent \<Rightarrow> bool" where
  "parent_ok g dp par =
     (\<forall>m j. (par (m, j) = None \<longleftrightarrow> dp (m, j) = None)
        \<and> (\<forall>c. par (m, j) = Some c \<longrightarrow>
              (c = 0 \<and> bits m = {j})
              \<or> (0 < c \<and> nat c \<in> bits m - {j}
                  \<and> (\<exists>v. dp (m XOR shl1 j, nat c) = Some v
                          \<and> dp (m, j) = Some (num_add v (g ! nat c ! j))))))"

definition hk_inv :: "graph \<Rightarrow> nat \<Rightarrow> nat \<Rightarrow> hk_dp \<times> hk_parent \<Rightarrow> bool" where
  "hk_inv g n k st =
     (hk_correct g n (fst st) \<and> hk_complete g n k (fst st) \<and> parent_ok g (fst st) (snd st))"

definition hk_le :: "hk_dp \<times> hk_parent \<Rightarrow> hk_dp \<times> hk_parent \<Rightarrow> bool" where
  "hk_le st st' = (\<forall>key. fst st key \<noteq> None \<longrightarrow> fst st' key = fst st key)"

subsection \<open>angular-sort.js\<close>

text \<open>
  \<^verbatim>\<open>generateTour(points)\<close>: a sorted copy of the points, by angle, mapped to the ids.
  \<^verbatim>\<open>Array.prototype.sort\<close> is stable; it is modelled by the stable insertion sort
  \<open>sort_key\<close>.
\<close>

definition angularSort_generateTour :: "point list \<Rightarrow> nat list" where
  "angularSort_generateTour points =
     (let sortedPoints = sort_key p_angle points
      in map p_id sortedPoints)"

subsection \<open>sonar-visit.js\<close>

text \<open>
  \<^verbatim>\<open>generateTour(points, gridSize = 40)\<close>. The \<^verbatim>\<open>Map\<close> from bucket index to the list of
  its points is a partial function; the first loop appends every point to the list of
  its bucket, the second sorts every bucket by the distance from the centre
  \<open>(0.5, 0.5)\<close>, and the third collects the ids of the buckets \<open>0, ..., angleSteps - 1\<close>.
\<close>

definition sonar_bucketIndex :: "nat \<Rightarrow> point \<Rightarrow> int" where
  "sonar_bucketIndex gridSize point =
     (let angleSteps = 4 * gridSize;
          angleStep = (2 * pi) / real angleSteps;
          angle = p_angle point;
          angle = (if angle < 0 then angle + 2 * pi else angle)
      in \<lfloor>angle / angleStep\<rfloor>)"

definition sonar_buckets :: "nat \<Rightarrow> point list \<Rightarrow> (int \<Rightarrow> point list option)" where
  "sonar_buckets gridSize points =
     fold (\<lambda>point angleBuckets.
             let bucketIndex = sonar_bucketIndex gridSize point;
                 angleBuckets = (if angleBuckets bucketIndex = None
                                 then angleBuckets(bucketIndex \<mapsto> [])
                                 else angleBuckets)
             in angleBuckets(bucketIndex \<mapsto> the (angleBuckets bucketIndex) @ [point]))
       points Map.empty"

definition sonar_centre_distance :: "point \<Rightarrow> real" where
  "sonar_centre_distance a = sqrt ((p_x a - 1 / 2)\<^sup>2 + (p_y a - 1 / 2)\<^sup>2)"

definition sonarVisit_generateTour :: "point list \<Rightarrow> nat \<Rightarrow> nat list" where
  "sonarVisit_generateTour points gridSize =
     (let angleSteps = 4 * gridSize;
          angleBuckets = sonar_buckets gridSize points;
          angleBuckets = map_option (sort_key sonar_centre_distance) \<circ> angleBuckets
      in fold (\<lambda>i tour.
                 if angleBuckets (int i) \<noteq> None
                 then tour @ map p_id (the (angleBuckets (int i)))
                 else tour)
           [0..<angleSteps] [])"

subsection \<open>greedy-edge.js\<close>

text \<open>
  The union-find of \<^verbatim>\<open>generateTour\<close>. \<^verbatim>\<open>find(x)\<close> follows the parents to a root and
  writes the root into \<open>parent[x]\<close> on the way back; it changes the array, so the model
  returns the array with the root. On an array with a cycle of parents the recursion
  does not end: the result \<open>None\<close> is a run that does not return.
  \<^verbatim>\<open>union(x, y)\<close> is \<^verbatim>\<open>parent[find(x)] = find(y)\<close>, with \<open>find(x)\<close> evaluated first.
\<close>

partial_function (option) find' :: "nat list \<Rightarrow> nat \<Rightarrow> (nat list \<times> nat) option" where
  "find' parent x =
     (if parent ! x \<noteq> x
      then Option.bind (find' parent (parent ! x))
             (\<lambda>r. Some ((fst r)[x := snd r], (fst r)[x := snd r] ! x))
      else Some (parent, parent ! x))"

declare find'.simps [code]

definition union' :: "nat list \<Rightarrow> nat \<Rightarrow> nat \<Rightarrow> nat list option" where
  "union' parent x y =
     Option.bind (find' parent x) (\<lambda>rx.
     Option.bind (find' (fst rx) y) (\<lambda>ry.
       Some ((fst ry)[snd rx := snd ry])))"

text \<open>An edge object \<^verbatim>\<open>{ from, to, dist }\<close> and the arrays that the main loop changes.\<close>

record edge =
  e_from :: nat
  e_to :: nat
  e_dist :: real

record ge_state =
  ge_degree :: "nat list"
  ge_parent :: "nat list"
  ge_adj :: "nat list list"
  ge_edgeCount :: nat

definition ge_edges :: "graph \<Rightarrow> nat \<Rightarrow> edge list" where
  "ge_edges g n =
     sort_key e_dist
       (concat (map (\<lambda>i. map (\<lambda>j. \<lparr>e_from = i, e_to = j, e_dist = g ! i ! j\<rparr>) [i + 1..<n])
                  [0..<n]))"

text \<open>
  Adding an edge: both adjacency lists, both degrees, the union, and the count.
\<close>

definition ge_add :: "edge \<Rightarrow> ge_state \<Rightarrow> ge_state option" where
  "ge_add e s =
     (let from = e_from e; to = e_to e;
          adj = (ge_adj s)[from := ge_adj s ! from @ [to]];
          adj = adj[to := adj ! to @ [from]];
          degree = (ge_degree s)[from := ge_degree s ! from + 1];
          degree = degree[to := degree ! to + 1]
      in Option.bind (union' (ge_parent s) from to) (\<lambda>parent.
           Some \<lparr>ge_degree = degree, ge_parent = parent, ge_adj = adj,
                 ge_edgeCount = ge_edgeCount s + 1\<rparr>))"

text \<open>
  The body of the loop over the sorted edges after the \<^verbatim>\<open>break\<close> test: the degree test,
  then, while fewer than \<open>n - 1\<close> edges are placed, the cycle test with its two calls of
  \<open>find\<close>, then the addition.
\<close>

definition ge_step :: "nat \<Rightarrow> edge \<Rightarrow> ge_state \<Rightarrow> ge_state option" where
  "ge_step n e s =
     (if ge_degree s ! e_from e \<ge> 2 \<or> ge_degree s ! e_to e \<ge> 2 then Some s
      else if ge_edgeCount s < n - 1 then
        Option.bind (find' (ge_parent s) (e_from e)) (\<lambda>rf.
        Option.bind (find' (fst rf) (e_to e)) (\<lambda>rt.
          if snd rf = snd rt then Some (s\<lparr>ge_parent := fst rt\<rparr>)
          else ge_add e (s\<lparr>ge_parent := fst rt\<rparr>)))
      else ge_add e s)"

fun ge_loop :: "nat \<Rightarrow> edge list \<Rightarrow> ge_state \<Rightarrow> ge_state option" where
  "ge_loop n [] s = Some s"
| "ge_loop n (e # es) s =
     (if ge_edgeCount s \<ge> n then Some s
      else Option.bind (ge_step n e s) (\<lambda>s'. ge_loop n es s'))"

text \<open>
  The reconstruction \<^verbatim>\<open>while (tour.length < n)\<close>: the current city is appended and
  marked, and the walk goes on with its first neighbour that is not visited; without
  one (\<open>next = -1\<close>) the loop is left.
\<close>

function ge_walk ::
  "nat \<Rightarrow> nat list list \<Rightarrow> nat list \<Rightarrow> bool list \<Rightarrow> nat \<Rightarrow> nat list" where
  "ge_walk n adj tour visited current =
     (if length tour < n then
        (let tour = tour @ [current];
             visited = arr_set visited current True
         in case find (\<lambda>neighbor. \<not> arr_get visited neighbor) (adj ! current) of
              None \<Rightarrow> tour
            | Some next' \<Rightarrow> ge_walk n adj tour visited next')
      else tour)"
  by pat_completeness auto
termination
  by (relation "measure (\<lambda>(n, adj, tour, visited, current). n - length tour)") auto

declare ge_walk.simps [simp del]

definition greedyEdge_generateTour :: "'p list \<Rightarrow> graph \<Rightarrow> nat list option" where
  "greedyEdge_generateTour points g =
     (let n = length points;
          edges = ge_edges g n;
          s = \<lparr>ge_degree = replicate n 0, ge_parent = [0..<n],
               ge_adj = replicate n [], ge_edgeCount = 0\<rparr>
      in Option.bind (ge_loop n edges s) (\<lambda>s.
           Some (ge_walk n (ge_adj s) [] (replicate n False) 0)))"

subsection \<open>Notions for the proof about greedy-edge.js\<close>

text \<open>
  \<open>uf_root parent x r\<close>: following the parents from \<open>x\<close> ends in the root \<open>r\<close>.
\<close>

inductive uf_root :: "nat list \<Rightarrow> nat \<Rightarrow> nat \<Rightarrow> bool" for parent where
  root: "parent ! x = x \<Longrightarrow> uf_root parent x x"
| step: "parent ! x \<noteq> x \<Longrightarrow> uf_root parent (parent ! x) r \<Longrightarrow> uf_root parent x r"

text \<open>\<open>adj_in P u v\<close>: \<open>u\<close> and \<open>v\<close> are consecutive in the list \<open>P\<close>, in one of the two orders.\<close>

fun adj_in :: "nat list \<Rightarrow> nat \<Rightarrow> nat \<Rightarrow> bool" where
  "adj_in (a # b # xs) u v = ((a = u \<and> b = v) \<or> (a = v \<and> b = u) \<or> adj_in (b # xs) u v)"
| "adj_in [a] u v = False"
| "adj_in [] u v = False"

text \<open>
  \<open>ge_cycle n adj\<close>: the adjacency lists describe one cycle through all cities: every
  city has two different neighbours, other than itself, the lists are symmetric, and a
  set of cities that holds city 0 and the neighbours of its members holds every city.
\<close>

definition ge_cycle :: "nat \<Rightarrow> nat list list \<Rightarrow> bool" where
  "ge_cycle n adj \<longleftrightarrow>
     length adj = n
     \<and> (\<forall>w<n. distinct (adj ! w) \<and> length (adj ! w) = 2 \<and> set (adj ! w) \<subseteq> {..<n} - {w})
     \<and> (\<forall>w<n. \<forall>x\<in>set (adj ! w). w \<in> set (adj ! x))
     \<and> (\<forall>S. 0 \<in> S \<and> (\<forall>w\<in>S. w < n \<longrightarrow> set (adj ! w) \<subseteq> S) \<longrightarrow> {..<n} \<subseteq> S)"

text \<open>
  The invariant of the loop over the sorted edges while fewer than \<open>n\<close> edges are placed.
  The placed edges form paths: \<open>pth v\<close> is the path through the city \<open>v\<close> and \<open>rt v\<close> the
  root of \<open>v\<close> in the union-find. Two cities have one root exactly when they are on one
  path; the adjacency list of a city holds its neighbours on its path; the number of
  placed edges and the number of paths add up to \<open>n\<close>. Every pair \<open>(u, v)\<close> in \<open>dn\<close>,
  the edges the loop is done with, is placed, or has an end of degree 2, or joins the
  two ends of a path that does not hold every city.
\<close>

definition ge_inv ::
  "nat \<Rightarrow> ge_state \<Rightarrow> (nat \<Rightarrow> nat list) \<Rightarrow> (nat \<Rightarrow> nat) \<Rightarrow> (nat \<times> nat) set \<Rightarrow> bool" where
  "ge_inv n s pth rt dn \<longleftrightarrow>
     length (ge_degree s) = n \<and> length (ge_parent s) = n \<and> length (ge_adj s) = n
     \<and> (\<forall>i<n. ge_parent s ! i < n)
     \<and> (\<forall>v<n. uf_root (ge_parent s) v (rt v))
     \<and> (\<forall>v<n. v \<in> set (pth v) \<and> distinct (pth v) \<and> set (pth v) \<subseteq> {..<n}
              \<and> (\<forall>w\<in>set (pth v). pth w = pth v))
     \<and> (\<forall>v<n. set (ge_adj s ! v) = {x. adj_in (pth v) v x} \<and> distinct (ge_adj s ! v)
              \<and> ge_degree s ! v = length (ge_adj s ! v) \<and> ge_degree s ! v \<le> 2)
     \<and> (\<forall>u<n. \<forall>v<n. rt u = rt v \<longleftrightarrow> pth u = pth v)
     \<and> ge_edgeCount s + card (pth ` {..<n}) = n
     \<and> (\<forall>(u, v)\<in>dn. u < n \<and> v < n \<and> u \<noteq> v
              \<and> (adj_in (pth u) u v \<or> 2 \<le> ge_degree s ! u \<or> 2 \<le> ge_degree s ! v
                  \<or> (pth u = pth v \<and> {u, v} = {hd (pth u), last (pth u)}
                      \<and> length (pth u) < n)))"

section \<open>Numbers\<close>

text \<open>The order of the numbers.\<close>

lemma num_less_iff: "num_less a b \<longleftrightarrow> a < b"
  by (simp add: less_num_def)

lemma num_less_simps [simp]:
  "Num a < Num b \<longleftrightarrow> a < b" "Num a < Infinity" "\<not> Num a < NegInfinity"
  "\<not> Infinity < x" "NegInfinity < Num b" "NegInfinity < Infinity" "\<not> x < NegInfinity"
  by (cases x; simp add: less_num_def)+

lemma num_le_simps [simp]:
  "Num a \<le> Num b \<longleftrightarrow> a \<le> b" "x \<le> Infinity" "NegInfinity \<le> x"
  "\<not> Infinity \<le> Num b" "\<not> Num a \<le> NegInfinity" "\<not> Infinity \<le> NegInfinity"
  by (cases x; auto simp add: less_eq_num_def)+

lemma num_less_Infinity: "x < Infinity \<longleftrightarrow> x \<noteq> Infinity"
  by (cases x) simp_all

text \<open>Rounding to the nearest integer, ties to even.\<close>

lemma round_half_even_bounds: "\<lfloor>q\<rfloor> \<le> round_half_even q \<and> round_half_even q \<le> \<lfloor>q\<rfloor> + 1"
  by (simp add: round_half_even_def Let_def)

lemma round_half_even_int [simp]: "round_half_even (of_int i) = i"
  by (simp add: round_half_even_def Let_def)

lemma round_half_even_mono:
  assumes "s \<le> t"
  shows "round_half_even s \<le> round_half_even t"
proof (cases "\<lfloor>s\<rfloor> < \<lfloor>t\<rfloor>")
  case True
  have "round_half_even s \<le> \<lfloor>s\<rfloor> + 1" using round_half_even_bounds by blast
  also have "\<dots> \<le> \<lfloor>t\<rfloor>" using True by simp
  also have "\<dots> \<le> round_half_even t" using round_half_even_bounds by blast
  finally show ?thesis .
next
  case False
  moreover have "\<lfloor>s\<rfloor> \<le> \<lfloor>t\<rfloor>" using assms by (rule floor_mono)
  ultimately have e: "\<lfloor>s\<rfloor> = \<lfloor>t\<rfloor>" by simp
  have "s - of_int \<lfloor>t\<rfloor> \<le> t - of_int \<lfloor>t\<rfloor>" using assms by simp
  then show ?thesis unfolding round_half_even_def Let_def e by auto
qed

lemma round_half_even_error: "\<bar>of_int (round_half_even q) - q\<bar> \<le> 1 / 2"
proof -
  have "of_int \<lfloor>q\<rfloor> \<le> q" "q < of_int \<lfloor>q\<rfloor> + 1" by linarith+
  then show ?thesis unfolding round_half_even_def Let_def by auto
qed

lemma round_half_even_le:
  assumes "t < 2 ^ 53"
  shows "(of_int (round_half_even t) :: real) \<le> 2 ^ 53"
proof -
  have "of_int \<lfloor>t\<rfloor> \<le> t" by simp
  then have "(of_int \<lfloor>t\<rfloor> :: real) < of_int (2 ^ 53)" using assms by simp
  then have "\<lfloor>t\<rfloor> < 2 ^ 53" by (simp only: of_int_less_iff)
  then have "round_half_even t \<le> 2 ^ 53" using round_half_even_bounds[of t] by linarith
  then have "(of_int (round_half_even t) :: real) \<le> of_int (2 ^ 53)" by (simp only: of_int_le_iff)
  then show ?thesis by simp
qed

lemma round_half_even_ge:
  assumes "2 ^ 52 \<le> t"
  shows "(2 ^ 52 :: real) \<le> of_int (round_half_even t)"
proof -
  have "(of_int (2 ^ 52) :: real) \<le> t" using assms by simp
  then have "2 ^ 52 \<le> \<lfloor>t\<rfloor>" by (simp only: le_floor_iff)
  then have "2 ^ 52 \<le> round_half_even t" using round_half_even_bounds[of t] by linarith
  then have "(of_int (2 ^ 52) :: real) \<le> of_int (round_half_even t)" by (simp only: of_int_le_iff)
  then show ?thesis by simp
qed

text \<open>The scaled magnitude lies below \<open>2^53\<close>, and not below \<open>2^52\<close> when it is scaled down.\<close>

lemma scaled_bounds:
  assumes "0 \<le> (q :: real)"
  defines "k \<equiv> nat (bitlen \<lfloor>q\<rfloor> - 53)"
  shows "q / 2 ^ k < 2 ^ 53" "0 < k \<Longrightarrow> 2 ^ 52 \<le> q / 2 ^ k"
proof -
  have f0: "0 \<le> \<lfloor>q\<rfloor>" using assms(1) by simp
  have "bitlen \<lfloor>q\<rfloor> \<le> int (k + 53)" by (simp add: k_def)
  then have "\<lfloor>q\<rfloor> < 2 ^ nat (int (k + 53))" unfolding bitlen_le_iff_power by blast
  then have "\<lfloor>q\<rfloor> < 2 ^ (k + 53)" by (simp only: nat_int)
  then have "\<lfloor>q\<rfloor> + 1 \<le> 2 ^ (k + 53)" by simp
  then have "of_int (\<lfloor>q\<rfloor> + 1) \<le> (2 ^ (k + 53) :: real)"
    by (metis of_int_le_iff of_int_numeral of_int_power)
  moreover have "q < of_int (\<lfloor>q\<rfloor> + 1)" by linarith
  ultimately have "q < 2 ^ (k + 53)" by linarith
  then have "q < 2 ^ 53 * 2 ^ k" by (simp add: power_add mult.commute)
  then show "q / 2 ^ k < 2 ^ 53" by (simp add: divide_less_eq)
  assume k: "0 < k"
  then have "int (k + 53) \<le> bitlen \<lfloor>q\<rfloor>" by (simp add: k_def)
  then have "2 ^ (nat (int (k + 53)) - 1) \<le> \<lfloor>q\<rfloor>" unfolding bitlen_ge_iff_power by simp
  moreover have "nat (int (k + 53)) - 1 = k + 52" by simp
  ultimately have "2 ^ (k + 52) \<le> \<lfloor>q\<rfloor>" by simp
  then have "(2 ^ (k + 52) :: real) \<le> of_int \<lfloor>q\<rfloor>"
    by (metis of_int_le_iff of_int_numeral of_int_power)
  also have "\<dots> \<le> q" by linarith
  finally have "2 ^ 52 * 2 ^ k \<le> q" by (simp add: power_add mult.commute)
  then show "2 ^ 52 \<le> q / 2 ^ k" by (simp add: le_divide_eq)
qed

lemma round_magnitude_nonneg: "0 \<le> a \<Longrightarrow> 0 \<le> round_magnitude a"
proof -
  assume a: "0 \<le> a"
  have "0 \<le> round_half_even q" if "0 \<le> q" for q
    using round_half_even_bounds[of q] that by (smt (verit) zero_le_floor)
  then show ?thesis using a by (simp add: round_magnitude_def Let_def)
qed

lemma round_magnitude_mono:
  assumes "0 \<le> x" "x \<le> y"
  shows "round_magnitude x \<le> round_magnitude y"
proof -
  define qx where "qx = x * 2 ^ 1074"
  define qy where "qy = y * 2 ^ 1074"
  define kx where "kx = nat (bitlen \<lfloor>qx\<rfloor> - 53)"
  define ky where "ky = nat (bitlen \<lfloor>qy\<rfloor> - 53)"
  define mx where "mx = round_half_even (qx / 2 ^ kx)"
  define my where "my = round_half_even (qy / 2 ^ ky)"
  have rx: "round_magnitude x = of_int mx * 2 ^ kx / 2 ^ 1074"
    by (simp add: round_magnitude_def Let_def qx_def kx_def mx_def)
  have ry: "round_magnitude y = of_int my * 2 ^ ky / 2 ^ 1074"
    by (simp add: round_magnitude_def Let_def qy_def ky_def my_def)
  have q0: "0 \<le> qx" "0 \<le> qy" "qx \<le> qy" using assms by (simp_all add: qx_def qy_def)
  have "\<lfloor>qx\<rfloor> \<le> \<lfloor>qy\<rfloor>" using q0(3) by (rule floor_mono)
  then have "bitlen \<lfloor>qx\<rfloor> \<le> bitlen \<lfloor>qy\<rfloor>"
    unfolding bitlen_def by (simp add: floorlog_mono nat_mono)
  then have kk: "kx \<le> ky" by (simp add: kx_def ky_def)
  have "(of_int mx :: real) * 2 ^ kx \<le> of_int my * 2 ^ ky"
  proof (cases "kx = ky")
    case True
    have "qx / 2 ^ ky \<le> qy / 2 ^ ky" using q0(3) by (simp add: divide_right_mono)
    then have "mx \<le> my" unfolding mx_def my_def True by (rule round_half_even_mono)
    then show ?thesis unfolding True by simp
  next
    case False
    then have lt: "kx < ky" using kk by simp
    have "qx / 2 ^ kx < 2 ^ 53" unfolding kx_def by (rule scaled_bounds(1)[OF q0(1)])
    then have "(of_int mx :: real) \<le> 2 ^ 53" unfolding mx_def by (rule round_half_even_le)
    then have "(of_int mx :: real) * 2 ^ kx \<le> 2 ^ 53 * 2 ^ kx" by simp
    also have "\<dots> = 2 ^ (52 + Suc kx)" by (simp add: power_add)
    also have "\<dots> \<le> (2 :: real) ^ (52 + ky)" using lt by (intro power_increasing) auto
    also have "\<dots> = 2 ^ 52 * 2 ^ ky" by (simp add: power_add)
    also have "\<dots> \<le> of_int my * 2 ^ ky"
    proof -
      have "0 < ky" using lt by simp
      then have "2 ^ 52 \<le> qy / 2 ^ ky" unfolding ky_def by (intro scaled_bounds(2)[OF q0(2)])
      then have "(2 ^ 52 :: real) \<le> of_int my" unfolding my_def by (rule round_half_even_ge)
      then show ?thesis by simp
    qed
    finally show ?thesis .
  qed
  then show ?thesis unfolding rx ry by (simp add: divide_right_mono)
qed

text \<open>Rounding is monotone, and so is the sum in its first argument.\<close>

lemma round_double_mono:
  assumes "x \<le> y"
  shows "round_double x \<le> round_double y"
proof -
  consider "0 \<le> x" | "x < 0" "0 \<le> y" | "y < 0" using assms by linarith
  then show ?thesis
  proof cases
    case 1
    then have "round_magnitude \<bar>x\<bar> \<le> round_magnitude \<bar>y\<bar>"
      using assms by (intro round_magnitude_mono) auto
    then show ?thesis using 1 assms by (auto simp: round_double_def Let_def)
  next
    case 2
    have "0 \<le> round_magnitude \<bar>x\<bar>" "0 \<le> round_magnitude \<bar>y\<bar>"
      by (simp_all add: round_magnitude_nonneg)
    then show ?thesis using 2 by (auto simp: round_double_def Let_def)
  next
    case 3
    then have "round_magnitude \<bar>y\<bar> \<le> round_magnitude \<bar>x\<bar>"
      using assms by (intro round_magnitude_mono) auto
    then show ?thesis using 3 assms by (auto simp: round_double_def Let_def)
  qed
qed

lemma num_add_mono: "a \<le> b \<Longrightarrow> num_add a c \<le> num_add b c"
  by (cases a; cases b) (simp_all add: round_double_mono)

lemma num_add_Infinity: "num_add a c < Infinity \<Longrightarrow> a < Infinity"
  by (cases a) simp_all

text \<open>The value of the rounding in a binade: with \<open>2^52 \<le> a * 2^s < 2^53\<close>.\<close>

lemma round_magnitude_scaled:
  assumes "s \<le> 1074" "2 ^ 52 \<le> a * 2 ^ s" "a * 2 ^ s < 2 ^ 53"
  shows "round_magnitude a = of_int (round_half_even (a * 2 ^ s)) / 2 ^ s"
proof -
  define j where "j = 1074 - s"
  have js: "j + s = 1074" using assms(1) by (simp add: j_def)
  define q where "q = a * 2 ^ 1074"
  have q: "q = (a * 2 ^ s) * 2 ^ j" unfolding q_def js[symmetric] by (simp add: power_add)
  have lo: "2 ^ 52 * 2 ^ j \<le> q" unfolding q using assms(2) by (intro mult_right_mono) auto
  have hi: "q < 2 ^ 53 * 2 ^ j" unfolding q using assms(3) by (intro mult_strict_right_mono) auto
  have "(2 ^ (52 + j) :: real) \<le> q" using lo by (simp add: power_add)
  then have "(of_int (2 ^ (52 + j)) :: real) \<le> q" by simp
  then have flo: "2 ^ (52 + j) \<le> \<lfloor>q\<rfloor>" unfolding le_floor_iff .
  have "q < 2 ^ (53 + j)" using hi by (simp add: power_add)
  then have "q < of_int (2 ^ (53 + j))" by simp
  then have fhi: "\<lfloor>q\<rfloor> < 2 ^ (53 + j)" unfolding floor_less_iff .
  have "\<lfloor>q\<rfloor> < 2 ^ nat (int (53 + j))" using fhi by (simp only: nat_int)
  then have b1: "bitlen \<lfloor>q\<rfloor> \<le> int (53 + j)" unfolding bitlen_le_iff_power by simp
  have "nat (int (53 + j)) - 1 = 52 + j" by simp
  then have "2 ^ (nat (int (53 + j)) - 1) \<le> \<lfloor>q\<rfloor>" using flo by simp
  then have b2: "int (53 + j) \<le> bitlen \<lfloor>q\<rfloor>" unfolding bitlen_ge_iff_power by blast
  have k: "nat (bitlen \<lfloor>q\<rfloor> - 53) = j" using b1 b2 by simp
  have "q / 2 ^ j = a * 2 ^ s" unfolding q by simp
  then have "round_magnitude a = of_int (round_half_even (a * 2 ^ s)) * 2 ^ j / 2 ^ 1074"
    unfolding round_magnitude_def Let_def q_def[symmetric] k by simp
  also have "\<dots> = of_int (round_half_even (a * 2 ^ s)) / 2 ^ s"
    unfolding js[symmetric] by (simp add: power_add)
  finally show ?thesis .
qed

lemma round_magnitude_scaled_down:
  assumes "2 ^ 52 \<le> a / 2 ^ j" "a / 2 ^ j < 2 ^ 53"
  shows "round_magnitude a = of_int (round_half_even (a / 2 ^ j)) * 2 ^ j"
proof -
  define i where "i = j + 1074"
  define q where "q = a * 2 ^ 1074"
  have q: "q = (a / 2 ^ j) * 2 ^ i" unfolding q_def i_def by (simp add: power_add)
  have lo: "2 ^ 52 * 2 ^ i \<le> q" unfolding q using assms(1) by (intro mult_right_mono) auto
  have hi: "q < 2 ^ 53 * 2 ^ i" unfolding q using assms(2) by (intro mult_strict_right_mono) auto
  have "(2 ^ (52 + i) :: real) \<le> q" using lo by (simp add: power_add)
  then have "(of_int (2 ^ (52 + i)) :: real) \<le> q" by simp
  then have flo: "2 ^ (52 + i) \<le> \<lfloor>q\<rfloor>" unfolding le_floor_iff .
  have "q < 2 ^ (53 + i)" using hi by (simp add: power_add)
  then have "q < of_int (2 ^ (53 + i))" by simp
  then have fhi: "\<lfloor>q\<rfloor> < 2 ^ (53 + i)" unfolding floor_less_iff .
  have "\<lfloor>q\<rfloor> < 2 ^ nat (int (53 + i))" using fhi by (simp only: nat_int)
  then have b1: "bitlen \<lfloor>q\<rfloor> \<le> int (53 + i)" unfolding bitlen_le_iff_power by simp
  have "nat (int (53 + i)) - 1 = 52 + i" by simp
  then have "2 ^ (nat (int (53 + i)) - 1) \<le> \<lfloor>q\<rfloor>" using flo by simp
  then have b2: "int (53 + i) \<le> bitlen \<lfloor>q\<rfloor>" unfolding bitlen_ge_iff_power by blast
  have k: "nat (bitlen \<lfloor>q\<rfloor> - 53) = i" using b1 b2 by simp
  have "q / 2 ^ i = a / 2 ^ j" unfolding q by simp
  then have "round_magnitude a = of_int (round_half_even (a / 2 ^ j)) * 2 ^ i / 2 ^ 1074"
    unfolding round_magnitude_def Let_def q_def[symmetric] k by simp
  also have "\<dots> = of_int (round_half_even (a / 2 ^ j)) * 2 ^ j"
    unfolding i_def by (simp add: power_add)
  finally show ?thesis .
qed

lemma round_double_0 [simp]: "round_double 0 = Num 0"
proof -
  have "round_half_even 0 = 0" using round_half_even_int[of 0] by simp
  then have "round_magnitude 0 = 0" by (simp add: round_magnitude_def Let_def)
  then show ?thesis by (simp add: round_double_def Let_def)
qed

text \<open>
  The rounding of a positive number whose significand is scaled by \<open>2^s\<close>, and of one
  that is scaled down by \<open>2^j\<close>.
\<close>

lemma round_double_scaled:
  assumes "s \<le> 1074" "2 ^ 52 \<le> a * 2 ^ s" "a * 2 ^ s < 2 ^ 53"
  shows "round_double a = Num (of_int (round_half_even (a * 2 ^ s)) / 2 ^ s)"
proof -
  have a: "0 < a" using assms(2) by (smt (verit) mult_nonpos_nonneg zero_le_power zero_less_power)
  have "(of_int (round_half_even (a * 2 ^ s)) :: real) \<le> 2 ^ 53"
    using assms(3) by (rule round_half_even_le)
  moreover have "(1::real) \<le> 2 ^ s" by simp
  ultimately have "of_int (round_half_even (a * 2 ^ s)) / 2 ^ s \<le> (2 ^ 53 :: real)"
    by (smt (verit) divide_le_eq_1 frac_le zero_less_power div_by_1)
  moreover have "(2 ^ 53 :: real) < 2 ^ 1024" by (intro power_strict_increasing) auto
  ultimately have "\<not> 2 ^ 1024 \<le> round_magnitude \<bar>a\<bar>"
    using round_magnitude_scaled[OF assms] a by simp
  then show ?thesis using a round_magnitude_scaled[OF assms] by (simp add: round_double_def Let_def)
qed

lemma round_double_scaled_down:
  assumes "2 ^ 52 \<le> a / 2 ^ j" "a / 2 ^ j < 2 ^ 53"
  shows "round_double a =
     (if 2 ^ 1024 \<le> of_int (round_half_even (a / 2 ^ j)) * (2 ^ j :: real) then Infinity
      else Num (of_int (round_half_even (a / 2 ^ j)) * 2 ^ j))"
proof -
  have "0 < a / 2 ^ j" using assms(1) by (smt (verit) zero_less_power)
  then have a: "0 < a" by (simp add: zero_less_divide_iff)
  show ?thesis using a round_magnitude_scaled_down[OF assms] by (simp add: round_double_def Let_def)
qed

text \<open>The natural numbers below \<open>2^53\<close> are doubles.\<close>

lemma round_double_nat:
  assumes "n < 2 ^ 53"
  shows "round_double (real n) = Num (real n)"
proof (cases "n = 0")
  case True
  then show ?thesis by simp
next
  case False
  then have pos: "0 < int n" by simp
  define b where "b = nat (bitlen (int n))"
  have bb: "bitlen (int n) = int b" using bitlen_nonneg[of "int n"] by (simp add: b_def)
  have "bitlen (int n) \<le> int 53" unfolding bitlen_le_iff_power using assms by simp
  then have b53: "b \<le> 53" using bb by simp
  have b1: "1 \<le> b" using pos bb bitlen_eq_zero_iff[of "int n"] bitlen_nonneg[of "int n"]
    by (cases b) auto
  define s where "s = 53 - b"
  have sb: "s + b = 53" using b53 by (simp add: s_def)
  from bitlen_bounds[OF pos] have "2 ^ nat (int b - 1) \<le> int n" "int n < 2 ^ nat (int b)"
    unfolding bb by auto
  then have lo: "2 ^ (b - 1) \<le> n" and hi: "n < 2 ^ b"
    using b1 by (simp_all add: nat_diff_distrib' flip: of_nat_less_iff of_nat_le_iff)
  have e52: "(2::nat) ^ (b - 1) * 2 ^ s = 2 ^ 52"
  proof -
    have "b - 1 + s = 52" using sb b1 by simp
    then show ?thesis by (simp flip: power_add)
  qed
  have "(2::nat) ^ (b - 1) * 2 ^ s \<le> n * 2 ^ s" using lo by (rule mult_le_mono1)
  then have "(2::nat) ^ 52 \<le> n * 2 ^ s" unfolding e52 .
  then have "real ((2::nat) ^ 52) \<le> real (n * 2 ^ s)" by (simp only: of_nat_le_iff)
  then have c1: "2 ^ 52 \<le> real n * 2 ^ s" by simp
  have e53: "(2::nat) ^ b * 2 ^ s = 2 ^ 53" using sb by (simp flip: power_add add: add.commute)
  have "n * 2 ^ s < (2::nat) ^ b * 2 ^ s" using hi by (intro mult_strict_right_mono) auto
  then have "n * 2 ^ s < (2::nat) ^ 53" unfolding e53 .
  then have "real (n * 2 ^ s) < real ((2::nat) ^ 53)" by (simp only: of_nat_less_iff)
  then have c2: "real n * 2 ^ s < 2 ^ 53" by simp
  have "s \<le> 1074" using sb by simp
  from round_double_scaled[OF this c1 c2]
  have "round_double (real n) = Num (of_int (round_half_even (real n * 2 ^ s)) / 2 ^ s)" .
  moreover have "real n * 2 ^ s = of_int (int (n * 2 ^ s))" by simp
  then have "round_half_even (real n * 2 ^ s) = int (n * 2 ^ s)"
    by (simp only: round_half_even_int)
  ultimately show ?thesis by simp
qed

lemma round_double_code [code]:
  "round_double x =
     (if 0 \<le> x \<and> x < 9007199254740992 \<and> of_int \<lfloor>x\<rfloor> = x then Num x
      else round_double_unevaluated x)"
proof (cases "0 \<le> x \<and> x < 9007199254740992 \<and> of_int \<lfloor>x\<rfloor> = x")
  case True
  then have e: "of_int \<lfloor>x\<rfloor> = x" and x0: "0 \<le> x" and x53: "x < 9007199254740992" by blast+
  have f0: "0 \<le> \<lfloor>x\<rfloor>" using x0 by simp
  have "real (nat \<lfloor>x\<rfloor>) = of_int \<lfloor>x\<rfloor>" using f0 by simp
  then have xe: "x = real (nat \<lfloor>x\<rfloor>)" using e by simp
  have "real (nat \<lfloor>x\<rfloor>) < real (2 ^ 53)" using xe x53 by simp
  then have "nat \<lfloor>x\<rfloor> < 2 ^ 53" by (simp only: of_nat_less_iff)
  from round_double_nat[OF this] have "round_double x = Num x" using xe by simp
  then show ?thesis using True by (simp only: if_True simp_thms)
next
  case False
  show ?thesis unfolding round_double_unevaluated_def by (subst if_not_P[OF False]) (rule refl)
qed

lemma round_double_numeral [simp]:
  "(numeral k :: nat) < 2 ^ 53 \<Longrightarrow> round_double (numeral k) = Num (numeral k)"
  using round_double_nat[of "numeral k"] by simp

lemma round_double_1 [simp]: "round_double 1 = Num 1"
  using round_double_nat[of 1] by simp

lemma is_double_numeral [simp]: "(numeral k :: nat) < 2 ^ 53 \<Longrightarrow> is_double (numeral k)"
  by (simp add: is_double_def)

lemma is_double_0 [simp]: "is_double 0"
  by (simp add: is_double_def)

lemma is_double_1 [simp]: "is_double 1"
  by (simp add: is_double_def)

section \<open>Efficiency\<close>

text \<open>
  C9. \<^verbatim>\<open>calculateEfficiency(solutionLength, referenceLength)\<close> is
  \<open>referenceLength / solutionLength * 100\<close> for every positive solution length and 0 for
  every solution length that is zero or negative; efficiency(4, 4) = 100,
  efficiency(5, 4) = 80 and efficiency(0, x) = 0 for every x.
\<close>

theorem calculateEfficiency_spec:
  "(0 < s \<longrightarrow> calculateEfficiency s r = r / s * 100)
   \<and> (s \<le> 0 \<longrightarrow> calculateEfficiency s r = 0)
   \<and> calculateEfficiency 4 4 = 100
   \<and> calculateEfficiency 5 4 = 80
   \<and> calculateEfficiency 0 x = 0"
  by (simp add: calculateEfficiency_def)

theorem calculateEfficiency_spec_witness:
  "(0 < (8::real) \<and> calculateEfficiency 8 2 = 2 / 8 * 100)
   \<and> ((-3::real) \<le> 0 \<and> calculateEfficiency (-3) 7 = 0)"
  using calculateEfficiency_spec [of 8 2] calculateEfficiency_spec [of "-3" 7]
  by simp

section \<open>Nearest neighbour\<close>

lemma arr_get_set: "arr_get (arr_set a i v) j = (if j = i then v else arr_get a j)"
  by (auto simp: arr_get_def arr_set_def nth_append nth_list_update)

lemma arr_get_replicate: "arr_get (replicate n False) j = False"
  by (auto simp: arr_get_def)

lemma is_tour_iff: "is_tour n t \<longleftrightarrow> distinct t \<and> set t = {..<n}"
  unfolding is_tour_def
  by (metis atLeast_upt distinct_upt mset_eq_setD set_eq_iff_mset_eq_distinct mset_eq_imp_distinct_iff)

text \<open>
  The scan returns a city that is in range and not visited, and returns none only when
  every city in range is visited.
\<close>

lemma nearest_scan_aux:
  "\<exists>r d. fold (\<lambda>i (nearest, nearestDist).
             if \<not> arr_get visited i \<and> num_less (Num (g ! current ! i)) nearestDist
             then (Some i, Num (g ! current ! i))
             else (nearest, nearestDist))
       [0..<m] (None, Infinity) = (r, d) \<and>
     (case r of None \<Rightarrow> d = Infinity \<and> (\<forall>i<m. arr_get visited i)
   | Some k \<Rightarrow> k < m \<and> \<not> arr_get visited k)"
proof (induction m)
  case 0
  then show ?case by simp
next
  case (Suc m)
  let ?f = "(\<lambda>i (nearest, nearestDist).
             if \<not> arr_get visited i \<and> num_less (Num (g ! current ! i)) nearestDist
             then (Some i, Num (g ! current ! i))
             else (nearest, nearestDist))"
  from Suc obtain r0 d0 where f0: "fold ?f [0..<m] (None, Infinity) = (r0, d0)"
    and inv: "case r0 of None \<Rightarrow> d0 = Infinity \<and> (\<forall>i<m. arr_get visited i)
              | Some k \<Rightarrow> k < m \<and> \<not> arr_get visited k" by blast
  show ?case
  proof (cases "\<not> arr_get visited m \<and> num_less (Num (g ! current ! m)) d0")
    case True
    then show ?thesis by (simp add: f0)
  next
    case False
    then have e: "fold ?f [0..<Suc m] (None, Infinity) = (r0, d0)" by (auto simp: f0)
    show ?thesis using inv False unfolding e
      by (cases r0) (auto simp: less_Suc_eq)
  qed
qed

lemma nearest_scan_None:
  "fst (nearest_scan g n visited current) = None \<Longrightarrow> i < n \<Longrightarrow> arr_get visited i"
  using nearest_scan_aux[of visited g current n]
  by (auto simp add: nearest_scan_def)

lemma nearest_scan_Some:
  "fst (nearest_scan g n visited current) = Some k \<Longrightarrow> k < n \<and> \<not> arr_get visited k"
  using nearest_scan_aux[of visited g current n]
  by (auto simp add: nearest_scan_def)

lemma unvisited_exists:
  assumes "distinct tour" "length tour < n"
  shows "\<exists>i<n. i \<notin> set tour"
proof (rule ccontr)
  assume "\<not> (\<exists>i<n. i \<notin> set tour)"
  then have "{..<n} \<subseteq> set tour" by auto
  then have "card {..<n} \<le> card (set tour)" by (intro card_mono) auto
  then show False using assms by (simp add: distinct_card)
qed

text \<open>
  The loop returns: as long as the tour is shorter than \<open>n\<close> some city in range is not
  visited, the scan finds one, and the tour grows.
\<close>

lemma nn_while_returns:
  assumes "distinct tour" "\<forall>i<n. arr_get visited i \<longleftrightarrow> i \<in> set tour"
  shows "\<exists>t. nn_while g n visited tour current = Some t \<and> distinct t
            \<and> length t = max n (length tour)
            \<and> take (length tour) t = tour \<and> set t \<subseteq> set tour \<union> {..<n}"
  using assms
proof (induction "n - length tour" arbitrary: tour visited current)
  case 0
  then show ?case by (subst nn_while.simps) (simp add: max_def)
next
  case (Suc d)
  then have lt: "length tour < n" by simp
  from unvisited_exists[OF Suc.prems(1) lt]
  obtain i where i: "i < n" "\<not> arr_get visited i" using Suc.prems(2) by auto
  then obtain k where k: "fst (nearest_scan g n visited current) = Some k"
    using nearest_scan_None[of g n visited current i]
    by (cases "fst (nearest_scan g n visited current)") auto
  from nearest_scan_Some[OF k] have kn: "k < n" "k \<notin> set tour" using Suc.prems(2) by auto
  have d: "d = n - length (tour @ [k])" using Suc(2) by simp
  have dist: "distinct (tour @ [k])" using kn Suc.prems(1) by simp
  have vis: "\<forall>i<n. arr_get (arr_set visited k True) i \<longleftrightarrow> i \<in> set (tour @ [k])"
    using Suc.prems(2) by (auto simp: arr_get_set)
  from Suc(1)[OF d dist vis, of k] obtain t where
    t: "nn_while g n (arr_set visited k True) (tour @ [k]) k = Some t" "distinct t"
       "length t = max n (length (tour @ [k]))" "take (length (tour @ [k])) t = tour @ [k]"
       "set t \<subseteq> set (tour @ [k]) \<union> {..<n}" by blast
  have "nn_while g n visited tour current = Some t"
    by (subst nn_while.simps) (simp add: lt k t(1))
  moreover have "take (length tour) t = tour"
  proof -
    have "take (length tour) (take (length (tour @ [k])) t) = take (length tour) (tour @ [k])"
      by (simp only: t(4))
    then show ?thesis by (simp add: min_def)
  qed
  moreover have "set t \<subseteq> set tour \<union> {..<n}" using t(5) kn by auto
  ultimately show ?case using t(2,3) lt by (auto simp: max_def)
qed

lemma nn_generateTour_returns:
  "\<exists>t. nearestNeighbor_generateTour points g startCity = Some t
     \<and> distinct t \<and> length t = max (length points) 1 \<and> hd t = startCity
     \<and> set t \<subseteq> {startCity} \<union> {..<length points}"
proof -
  let ?n = "length points"
  have v: "\<forall>i<?n. arr_get (arr_set (replicate ?n False) startCity True) i
             \<longleftrightarrow> i \<in> set [startCity]"
    by (auto simp: arr_get_set arr_get_replicate)
  from nn_while_returns[of "[startCity]" ?n _ g startCity, OF _ v]
  obtain t where
    t: "nn_while g ?n (arr_set (replicate ?n False) startCity True) [startCity] startCity
          = Some t"
     "distinct t" "length t = max ?n 1" "take 1 t = [startCity]"
     "set t \<subseteq> {startCity} \<union> {..<?n}"
    by auto
  from t(4) have "hd t = startCity" by (cases t) auto
  with t show ?thesis by (simp add: nearestNeighbor_generateTour_def)
qed

text \<open>
  C10. Called with the empty point list, \<^verbatim>\<open>nearestNeighbor.generateTour\<close> returns the
  one-element tour \<open>[startCity]\<close>, an id with no point, and not the empty tour; and for
  every \<open>n \<ge> 1\<close> points, an \<open>n\<close> by \<open>n\<close> matrix and \<open>startCity < n\<close>, it returns a tour
  whose first element is \<open>startCity\<close>.
\<close>

theorem nearestNeighbor_first_city:
  "nearestNeighbor_generateTour ([] :: 'p list) g startCity = Some [startCity]
   \<and> (1 \<le> length (points :: 'p list) \<and> startCity < length points
         \<and> matrix g' (length points)
        \<longrightarrow> (\<exists>rest. nearestNeighbor_generateTour points g' startCity
                       = Some (startCity # rest)))"
proof -
  have "nearestNeighbor_generateTour ([] :: 'p list) g startCity = Some [startCity]"
    by (simp add: nearestNeighbor_generateTour_def nn_while.simps arr_set_def)
  moreover obtain t where t: "nearestNeighbor_generateTour points g' startCity = Some t"
      "length t = max (length points) 1" "hd t = startCity"
    using nn_generateTour_returns[of points g' startCity] by blast
  then have "t = startCity # tl t" by (cases t) auto
  ultimately show ?thesis using t(1) by metis
qed

theorem nearestNeighbor_first_city_witness:
  "nearestNeighbor_generateTour ([] :: unit list) [] 1 = Some [1]
   \<and> 1 \<le> length [(), ()] \<and> 1 < length [(), ()] \<and> matrix [[0, 3], [3, 0]] (length [(), ()])
   \<and> (\<exists>rest. nearestNeighbor_generateTour [(), ()] [[0, 3], [3, 0]] 1 = Some (1 # rest))"
  using nearestNeighbor_first_city
          [where g = "[]" and startCity = 1 and points = "[(), ()]" and g' = "[[0, 3], [3, 0]]"]
  by (simp add: matrix_def)

section \<open>Order crossover\<close>

lemma copy_loop:
  "m \<le> length child \<Longrightarrow> s \<le> m \<Longrightarrow> length parent1 = length child \<Longrightarrow>
   fold (\<lambda>i (child, used). (child[i := int (parent1 ! i)], insert (parent1 ! i) used))
     [s..<m] (child, used)
   = (take s child @ map int (take (m - s) (drop s parent1)) @ drop m child,
      used \<union> set (take (m - s) (drop s parent1)))"
proof (induction m arbitrary: )
  case 0
  then show ?case by simp
next
  case (Suc m)
  show ?case
  proof (cases "s = Suc m")
    case True
    then show ?thesis by simp
  next
    case False
    then have sm: "s \<le> m" using Suc.prems by simp
    have m: "m < length child" using Suc.prems by simp
    have t: "take (Suc m - s) (drop s parent1) = take (m - s) (drop s parent1) @ [parent1 ! m]"
      using sm m Suc.prems(3) by (simp add: Suc_diff_le take_Suc_conv_app_nth)
    have u: "(take s child @ map int (take (m - s) (drop s parent1)) @ drop m child)[m := int (parent1 ! m)]
       = take s child @ map int (take (m - s) (drop s parent1)) @ [int (parent1 ! m)] @ drop (Suc m) child"
      using sm m Suc.prems(3)
      by (simp add: list_update_append min_def upd_conv_take_nth_drop)
    show ?thesis using Suc.IH[OF _ sm Suc.prems(3)] m sm t u by simp
  qed
qed

lemma fill_filter:
  "fold (\<lambda>i (child, idx).
                    let city = f i
                    in if city \<notin> used
                       then (child[idx := int city], (idx + 1) mod n)
                       else (child, idx)) xs (child, idx)
   = fold (\<lambda>city (child, idx). (child[idx := int city], (idx + 1) mod n))
        (filter (\<lambda>c. c \<notin> used) (map f xs)) (child, idx)"
  by (induction xs arbitrary: child idx) (auto simp: Let_def)

lemma fold_writes:
  assumes "length c = n" "length ws \<le> n" "idx < n"
  shows "\<exists>c' idx'. fold (\<lambda>city (child, idx). (child[idx := int city], (idx + 1) mod n)) ws (c, idx) = (c', idx')
     \<and> length c' = n \<and> (\<forall>k<length ws. c' ! ((idx + k) mod n) = int (ws ! k))
     \<and> (\<forall>p<n. (\<forall>k<length ws. p \<noteq> (idx + k) mod n) \<longrightarrow> c' ! p = c ! p)"
  using assms
proof (induction ws arbitrary: c idx)
  case Nil
  then show ?case by simp
next
  case (Cons w ws)
  let ?c1 = "c[idx := int w]" and ?i1 = "(idx + 1) mod n"
  have 1: "length ?c1 = n" "length ws \<le> n" "?i1 < n" using Cons.prems by auto
  from Cons.IH[OF 1] obtain c' idx' where
    f: "fold (\<lambda>city (child, idx). (child[idx := int city], (idx + 1) mod n)) ws (?c1, ?i1) = (c', idx')"
    and l: "length c' = n" and w: "\<forall>k<length ws. c' ! ((?i1 + k) mod n) = int (ws ! k)"
    and o: "\<forall>p<n. (\<forall>k<length ws. p \<noteq> (?i1 + k) mod n) \<longrightarrow> c' ! p = ?c1 ! p" by blast
  have shift: "\<And>k. (?i1 + k) mod n = (idx + Suc k) mod n"
    by (simp add: mod_simps)
  have notidx: "\<And>k. k < length ws \<Longrightarrow> idx \<noteq> (idx + Suc k) mod n"
  proof
    fix k assume k: "k < length ws" and e: "idx = (idx + Suc k) mod n"
    have sk: "Suc k < n" using k Cons.prems(2) by simp
    show False
    proof (cases "idx + Suc k < n")
      case True then show ?thesis using e by simp
    next
      case False
      then have "(idx + Suc k) mod n = idx + Suc k - n"
        using Cons.prems(3) sk by (simp add: mod_if)
      then show ?thesis using e sk False by simp
    qed
  qed
  have "\<forall>k<length ws. idx \<noteq> (?i1 + k) mod n"
    using notidx unfolding shift by blast
  then have "c' ! idx = ?c1 ! idx"
    using o Cons.prems(3) by blast
  then have "c' ! idx = int w" using Cons.prems by simp
  then have a: "\<forall>k<length (w # ws). c' ! ((idx + k) mod n) = int ((w # ws) ! k)"
  proof (intro allI impI)
    fix k assume k: "k < length (w # ws)"
    show "c' ! ((idx + k) mod n) = int ((w # ws) ! k)"
    proof (cases k)
      case 0 then show ?thesis using \<open>c' ! idx = int w\<close> Cons.prems(3) by simp
    next
      case (Suc j)
      then have "j < length ws" using k by simp
      then have "c' ! ((?i1 + j) mod n) = int (ws ! j)" using w by blast
      then show ?thesis unfolding shift Suc by simp
    qed
  qed
  have b: "\<forall>p<n. (\<forall>k<length (w # ws). p \<noteq> (idx + k) mod n) \<longrightarrow> c' ! p = c ! p"
  proof (intro allI impI)
    fix p assume p: "p < n" and h: "\<forall>k<length (w # ws). p \<noteq> (idx + k) mod n"
    from h[rule_format, of 0] have "p \<noteq> idx" using Cons.prems(3) by simp
    moreover have "\<forall>k<length ws. p \<noteq> (?i1 + k) mod n"
      unfolding shift using h by auto
    ultimately show "c' ! p = c ! p" using o p by simp
  qed
  show ?case using f l a b by simp
qed


lemma is_tour_length: "is_tour n t \<Longrightarrow> length t = n"
  unfolding is_tour_def by (metis length_upt minus_nat.diff_0 size_mset)

lemma random_index:
  assumes "0 \<le> r" "r < 1" "0 < m"
  shows "nat \<lfloor>r * real m\<rfloor> < m"
proof -
  have "r * real m < real m" using assms by simp
  then have "\<lfloor>r * real m\<rfloor> < int m" by (simp add: floor_less_iff)
  then show ?thesis using assms by simp
qed

lemma mset_segment:
  assumes "distinct xs"
  shows "mset (take a (drop s xs)) = filter_mset (\<lambda>x. x \<in> set (take a (drop s xs))) (mset xs)"
proof -
  let ?seg = "take a (drop s xs)"
  have xs: "xs = take s xs @ ?seg @ drop a (drop s xs)"
    by (metis append_take_drop_id)
  have d: "distinct (take s xs @ ?seg @ drop a (drop s xs))" using assms xs by metis
  have 1: "filter (\<lambda>x. x \<in> set ?seg) (take s xs) = []"
    using d by (auto simp: filter_empty_conv)
  have 2: "filter (\<lambda>x. x \<in> set ?seg) (drop a (drop s xs)) = []"
    using d by (auto simp: filter_empty_conv)
  have "filter (\<lambda>x. x \<in> set ?seg) xs = ?seg"
    by (subst xs) (simp only: filter_append 1 2, simp)
  then show ?thesis by (metis mset_filter)
qed

lemma mset_rotate1: "mset (rotate1 xs) = mset xs"
  by (cases xs) simp_all

lemma mset_rotate: "mset (rotate k xs) = mset xs"
  by (induction k) (simp_all add: mset_rotate1)

lemma rotated_reads:
  assumes "length xs = n" "0 < n"
  shows "mset (map (\<lambda>i. xs ! ((e + i) mod n)) [0..<n]) = mset xs"
proof -
  have "map (\<lambda>i. xs ! ((e + i) mod n)) [0..<n] = rotate (e mod n) xs"
    using assms by (intro nth_equalityI) (auto simp: nth_rotate mod_simps)
  then show ?thesis by (simp only: mset_rotate)
qed


text \<open>
  C6. For every \<open>n \<ge> 1\<close>, all parents that are permutations of \<open>0, ..., n - 1\<close> and
  every pair of random draws in \<open>[0, 1)\<close>, the child returned by the order crossover is
  a permutation of \<open>0, ..., n - 1\<close>: every city appears exactly once and no slot keeps
  the initial \<open>-1\<close>.
\<close>

theorem crossover_permutation:
  assumes n: "1 \<le> n" and p1: "is_tour n parent1" and p2: "is_tour n parent2"
    and r1: "0 \<le> r1" "r1 < 1" and r2: "0 \<le> r2" "r2 < 1"
  shows "mset (crossover parent1 parent2 r1 r2) = mset (map int [0..<n])"
proof -
  have l1: "length parent1 = n" and l2: "length parent2 = n"
    using p1 p2 by (simp_all add: is_tour_length)
  have d1: "distinct parent1" and d2: "distinct parent2"
    using p1 p2 by (simp_all add: is_tour_iff)
  define start where "start = nat \<lfloor>r1 * real n\<rfloor>"
  define end' where "end' = start + nat \<lfloor>r2 * real (n - start)\<rfloor>"
  have s: "start < n" unfolding start_def using random_index[OF r1] n by simp
  then have "nat \<lfloor>r2 * real (n - start)\<rfloor> < n - start"
    using random_index[OF r2, of "n - start"] by simp
  then have e: "start \<le> end'" "end' < n" unfolding end'_def by linarith+
  define seg where "seg = take (end' + 1 - start) (drop start parent1)"
  have lseg: "length seg = end' + 1 - start" unfolding seg_def using e l1 by simp
  define child1 where
    "child1 = replicate start (- 1 :: int) @ map int seg @ replicate (n - (end' + 1)) (- 1)"
  have lc1: "length child1 = n" unfolding child1_def using lseg e by simp
  have copy: "fold (\<lambda>i (child, used).
                    (child[i := int (parent1 ! i)], insert (parent1 ! i) used))
              [start..<end' + 1] (replicate n (- 1), {}) = (child1, set seg)"
    using copy_loop[of "end' + 1" "replicate n (- 1)" start parent1 "{}"] e l1
    by (simp add: child1_def seg_def)
  define rot where "rot = map (\<lambda>i. parent2 ! ((end' + 1 + i) mod n)) [0..<n]"
  define ws where "ws = filter (\<lambda>c. c \<notin> set seg) rot"
  have mrot: "mset rot = mset parent2"
    unfolding rot_def using rotated_reads[OF l2, of "end' + 1"] n by simp
  have mseg: "mset seg = filter_mset (\<lambda>x. x \<in> set seg) (mset parent1)"
    unfolding seg_def by (rule mset_segment[OF d1])
  have m12: "mset parent1 = mset parent2" using p1 p2 by (simp add: is_tour_def)
  have mws: "mset ws = filter_mset (\<lambda>x. x \<notin> set seg) (mset parent1)"
    unfolding ws_def by (simp add: mrot m12)
  have "mset ws + mset seg = mset parent1"
    unfolding mws mseg using multiset_partition[of "mset parent1" "\<lambda>x. x \<notin> set seg"]
    by simp
  then have mall: "mset ws + mset seg = mset [0..<n]"
    using p1 by (simp only: is_tour_def)
  have "size (mset ws + mset seg) = n" by (simp only: mall) simp
  then have lws: "length ws = n - (end' + 1) + start" using lseg e by simp
  define idx where "idx = (end' + 1) mod n"
  have idx: "idx < n" unfolding idx_def using n by simp
  have "length ws \<le> n" using lws e by simp
  from fold_writes[OF lc1 this idx] obtain c' idx' where
    f: "fold (\<lambda>city (child, idx). (child[idx := int city], (idx + 1) mod n)) ws (child1, idx)
          = (c', idx')"
    and lc: "length c' = n"
    and w: "\<forall>k<length ws. c' ! ((idx + k) mod n) = int (ws ! k)"
    and o: "\<forall>p<n. (\<forall>k<length ws. p \<noteq> (idx + k) mod n) \<longrightarrow> c' ! p = child1 ! p"
    by blast
  have cr: "crossover parent1 parent2 r1 r2 = c'"
    unfolding crossover_def Let_def l1
    by (simp only: start_def[symmetric] end'_def[symmetric] copy prod.case fill_filter[unfolded Let_def]
          rot_def[symmetric] ws_def[symmetric] idx_def[symmetric] f)
  have ik: "\<And>k. (idx + k) mod n = (end' + 1 + k) mod n"
    unfolding idx_def by (simp add: mod_simps)
  have c': "c' = map int (drop (n - (end' + 1)) ws) @ map int seg @ map int (take (n - (end' + 1)) ws)"
  proof (intro nth_equalityI allI impI)
    show "length c' = length (map int (drop (n - (end' + 1)) ws) @ map int seg @ map int (take (n - (end' + 1)) ws))"
      using lc lws lseg e by simp
  next
    fix p assume "p < length c'"
    then have p: "p < n" using lc by simp
    consider "p < start" | "start \<le> p" "p \<le> end'" | "end' < p" by linarith
    then show "c' ! p = (map int (drop (n - (end' + 1)) ws) @ map int seg @ map int (take (n - (end' + 1)) ws)) ! p"
    proof cases
      case 1
      let ?k = "n - (end' + 1) + p"
      have k: "?k < length ws" using 1 lws by simp
      have "(end' + 1 + ?k) mod n = p" using e p by simp
      then have "c' ! p = int (ws ! ?k)" using w k ik by metis
      then show ?thesis using 1 lws k by (simp add: nth_append)
    next
      case 2
      have "\<forall>k<length ws. p \<noteq> (idx + k) mod n"
      proof (intro allI impI)
        fix k assume k: "k < length ws"
        show "p \<noteq> (idx + k) mod n"
        proof (cases "end' + 1 + k < n")
          case True then show ?thesis using 2 by (simp add: ik)
        next
          case False
          then have "(end' + 1 + k) mod n = end' + 1 + k - n"
            using k lws e by (simp add: mod_if)
          then show ?thesis using 2 k lws e False by (simp add: ik)
        qed
      qed
      then have "c' ! p = child1 ! p" using o p by blast
      also have "\<dots> = int (seg ! (p - start))"
      proof -
        have "p - start < length seg" using 2 lseg by linarith
        then show ?thesis unfolding child1_def using 2 by (simp add: nth_append)
      qed
      finally have cp: "c' ! p = int (seg ! (p - start))" .
      have "p - start < length seg" using 2 lseg by linarith
      moreover have "length (drop (n - (end' + 1)) ws) = start" using lws by simp
      ultimately show ?thesis using 2 cp by (simp add: nth_append del: length_drop)
    next
      case 3
      let ?k = "p - (end' + 1)"
      have k: "?k < length ws" using 3 p lws by simp
      have "(end' + 1 + ?k) mod n = p" using 3 p by simp
      then have cp: "c' ! p = int (ws ! ?k)" using w k ik by metis
      have la: "length (drop (n - (end' + 1)) ws) = start" using lws by simp
      have n1: "\<not> p < start" using 3 e by linarith
      have n2: "\<not> p - start < length seg" using 3 e lseg by linarith
      have k2: "p - (start + length seg) = ?k" using 3 e lseg by linarith
      have k3: "?k < n - (end' + 1)" using 3 p by linarith
      show ?thesis using cp la n1 n2 k k3
        by (simp add: nth_append k2 del: length_drop)
    qed
  qed
  have "mset c' = image_mset int (mset ws + mset seg)"
  proof -
    have "mset c' = image_mset int (mset (drop (n - (end' + 1)) ws) + mset seg + mset (take (n - (end' + 1)) ws))"
      by (subst c') simp
    also have "mset (drop (n - (end' + 1)) ws) + mset seg + mset (take (n - (end' + 1)) ws)
        = mset (take (n - (end' + 1)) ws @ drop (n - (end' + 1)) ws) + mset seg"
      by (simp only: mset_append) simp
    finally show ?thesis by simp
  qed
  then show ?thesis using mall cr by simp
qed

theorem crossover_permutation_witness:
  "(1::nat) \<le> 5 \<and> is_tour 5 [0, 1, 2, 3, 4] \<and> is_tour 5 [4, 3, 2, 1, 0]
   \<and> (0::real) \<le> 3 / 10 \<and> (3 / 10 :: real) < 1 \<and> (0::real) \<le> 1 / 2 \<and> (1 / 2 :: real) < 1
   \<and> mset (crossover [0, 1, 2, 3, 4] [4, 3, 2, 1, 0] (3 / 10) (1 / 2)) = mset (map int [0..<5])"
proof -
  have u: "[0..<5] = [0, 1, 2, 3, 4]" by (simp add: upt_rec)
  have h1: "is_tour 5 [0, 1, 2, 3, 4]" by (simp add: is_tour_def u)
  have h2: "is_tour 5 [4, 3, 2, 1, 0]" by (simp add: is_tour_def u)
  from crossover_permutation [of 5 "[0, 1, 2, 3, 4]" "[4, 3, 2, 1, 0]" "3 / 10" "1 / 2"] h1 h2
  show ?thesis by simp
qed

section \<open>Zigzag\<close>

text \<open>
  The spread of the set keeps exactly the first occurrence of every element, in the
  order of the list.
\<close>

lemma spread_Set_aux:
  "fold (\<lambda>x s. if x \<in> set s then s else s @ [x]) xs acc
     = acc @ map (\<lambda>k. xs ! k)
               (filter (\<lambda>k. xs ! k \<notin> set acc \<union> set (take k xs)) [0..<length xs])"
proof (induction xs arbitrary: acc)
  case Nil
  then show ?case by simp
next
  case (Cons x xs)
  have u: "[0..<length (x # xs)] = 0 # map Suc [0..<length xs]"
    by (simp add: upt_conv_Cons map_Suc_upt del: upt_Suc)
  show ?case
  proof (cases "x \<in> set acc")
    case True
    then have "filter (\<lambda>k. xs ! k \<notin> set acc \<union> set (take k xs)) [0..<length xs]
        = filter (\<lambda>k. xs ! k \<notin> set acc \<and> xs ! k \<noteq> x \<and> xs ! k \<notin> set (take k xs))
            [0..<length xs]"
      by (intro filter_cong) auto
    then show ?thesis unfolding u using True by (simp add: Cons.IH filter_map comp_def)
  next
    case False
    have "filter (\<lambda>k. xs ! k \<notin> set (acc @ [x]) \<union> set (take k xs)) [0..<length xs]
        = filter (\<lambda>k. xs ! k \<notin> set acc \<and> xs ! k \<noteq> x \<and> xs ! k \<notin> set (take k xs))
            [0..<length xs]"
      by (intro filter_cong) auto
    then show ?thesis unfolding u using False by (simp add: Cons.IH filter_map comp_def)
  qed
qed

lemma spread_Set_first_occurrences:
  "spread_Set xs
     = map (\<lambda>k. xs ! k) (filter (\<lambda>k. xs ! k \<notin> set (take k xs)) [0..<length xs])"
  unfolding spread_Set_def by (simp add: spread_Set_aux)

lemma set_spread_Set: "set (spread_Set xs) = set xs"
  unfolding spread_Set_def
proof -
  have "\<And>acc. set (fold (\<lambda>x s. if x \<in> set s then s else s @ [x]) xs acc)
           = set acc \<union> set xs"
    by (induction xs) auto
  then show "set (fold (\<lambda>x s. if x \<in> set s then s else s @ [x]) xs []) = set xs" by simp
qed

lemma distinct_spread_Set: "distinct (spread_Set xs)"
  unfolding spread_Set_def
proof -
  have "\<And>acc. distinct acc
      \<Longrightarrow> distinct (fold (\<lambda>x s. if x \<in> set s then s else s @ [x]) xs acc)"
    by (induction xs) auto
  then show "distinct (fold (\<lambda>x s. if x \<in> set s then s else s @ [x]) xs [])" by simp
qed

text \<open>
  The loop at index \<open>i \<ge> 1\<close> emits the ids of all positions from \<open>i - 1\<close> on, when it runs
  at all.
\<close>

lemma drop_pred: "1 \<le> i \<Longrightarrow> i < length tp \<Longrightarrow> drop (i - 1) tp = tp ! (i - 1) # drop i tp"
  using Cons_nth_drop_Suc[of "i - 1" tp] by simp

lemma zigzag_while_set:
  "1 \<le> i \<Longrightarrow> set (zigzag_while tp acc i) =
     set acc \<union> (if i < length tp then originalId ` set (drop (i - 1) tp) else {})"
proof (induction tp acc i rule: zigzag_while.induct)
  case (1 tp acc i)
  show ?case
  proof (cases "i < length tp")
    case False
    then show ?thesis by (subst zigzag_while.simps) simp
  next
    case lt: True
    have d1: "drop (i - 1) tp = tp ! (i - 1) # drop i tp"
      using lt 1(3) by (rule drop_pred[rotated])
    have d2: "drop i tp = tp ! i # drop (i + 1) tp"
      using lt by (simp add: Cons_nth_drop_Suc)
    show ?thesis
    proof (cases "length tp - i > 2 \<and> shouldZigzag i tp")
      case True
      then have "2 < length tp - i" by blast
      then have b: "i + 2 < length tp" by linarith
      have d3: "drop (i + 1) tp = tp ! (i + 1) # drop (i + 2) tp"
        using b Cons_nth_drop_Suc[of "i + 1" tp] by simp
      have d4: "drop (i + 2) tp = tp ! (i + 2) # drop (i + 3) tp"
        using b Cons_nth_drop_Suc[of "i + 2" tp] by (simp add: numeral_3_eq_3)
      have dd: "drop (i - 1) tp
          = tp ! (i - 1) # tp ! i # tp ! (i + 1) # tp ! (i + 2) # drop (i + 3) tp"
        by (simp only: d1 d2 d3 d4)
      have m: "(i + 1) mod length tp = i + 1" "i mod length tp = i"
              "(i + 2) mod length tp = i + 2"
        using b by simp_all
      let ?acc = "acc @ [originalId (tp ! (i - 1)), originalId (tp ! (i + 1)),
                         originalId (tp ! i), originalId (tp ! (i + 2))]"
      have s: "zigzag_while tp acc i = zigzag_while tp ?acc (i + 3)"
        by (subst zigzag_while.simps) (simp only: lt True m if_True simp_thms)
      have ih: "set (zigzag_while tp ?acc (i + 3)) = set ?acc \<union>
               (if i + 3 < length tp then originalId ` set (drop (i + 3 - 1) tp) else {})"
        using 1(1)[OF lt True] by (simp only: m)
      have e: "i + 3 \<ge> length tp \<Longrightarrow> drop (i + 3) tp = []" by simp
      have "set (zigzag_while tp acc i)
          = set acc \<union> {originalId (tp ! (i - 1)), originalId (tp ! (i + 1)),
                         originalId (tp ! i), originalId (tp ! (i + 2))}
            \<union> (if i + 3 < length tp then originalId ` set (drop (i + 3 - 1) tp) else {})"
        by (simp only: s ih) simp
      also have "\<dots> = set acc \<union> originalId ` set (drop (i - 1) tp)"
      proof (cases "i + 3 < length tp")
        case True
        have "i + 3 - 1 = i + 2" by simp
        then show ?thesis using True by (simp only: dd d4 if_True) auto
      next
        case False
        then show ?thesis using e by (simp only: dd if_False) auto
      qed
      finally show ?thesis using lt by simp
    next
      case False
      have m: "i mod length tp = i" using lt by simp
      let ?acc = "acc @ [originalId (tp ! (i - 1)), originalId (tp ! i)]"
      have s: "zigzag_while tp acc i = zigzag_while tp ?acc (i + 1)"
        by (subst zigzag_while.simps) (simp only: lt False m if_True if_False)
      have ih: "set (zigzag_while tp ?acc (i + 1)) = set ?acc \<union>
               (if i + 1 < length tp then originalId ` set (drop (i + 1 - 1) tp) else {})"
        using 1(2)[OF lt False] by (simp only: m)
      have e: "i + 1 \<ge> length tp \<Longrightarrow> drop (i + 1) tp = []" by simp
      have "set (zigzag_while tp acc i)
          = set acc \<union> {originalId (tp ! (i - 1)), originalId (tp ! i)}
            \<union> (if i + 1 < length tp then originalId ` set (drop (i + 1 - 1) tp) else {})"
        by (simp only: s ih) simp
      also have "\<dots> = set acc \<union> originalId ` set (drop (i - 1) tp)"
      proof (cases "i + 1 < length tp")
        case True
        have "i + 1 - 1 = i" by simp
        then show ?thesis using True by (simp only: d1 if_True) (auto simp: d2)
      next
        case False
        then have "drop (i + 1) tp = []" by simp
        then show ?thesis using False by (simp only: d1 d2 if_False) auto
      qed
      finally show ?thesis using lt by simp
    qed
  qed
qed

lemma zigzag_emitted_set:
  assumes "2 \<le> length tourIndices"
  shows "set (zigzag_emitted tourIndices points) = set tourIndices"
proof -
  have "originalId ` set (zigzag_tourPoints tourIndices points) = set tourIndices"
    by (auto simp: zigzag_tourPoints_def with_originalId_def image_iff)
  moreover have "1 < length (zigzag_tourPoints tourIndices points)"
    using assms by (simp add: zigzag_tourPoints_def)
  ultimately show ?thesis
    unfolding zigzag_emitted_def by (simp add: zigzag_while_set)
qed

text \<open>
  C8. For every input tour that is a permutation of \<open>0, ..., n - 1\<close> with \<open>n \<ge> 3\<close> and
  its list of \<open>n\<close> points, \<^verbatim>\<open>zigzag.optimize\<close> returns a tour without duplicates that
  omits no id of the input (it is a permutation of \<open>0, ..., n - 1\<close> again), and the ids
  stand in the order of their first emission: the result is the list of the emitted
  ids at the positions where an id is emitted for the first time.
\<close>

theorem zigzag_optimize_keeps_every_id:
  assumes "3 \<le> n" "is_tour n tourIndices" "length points = n"
  shows "distinct (zigzag_optimize tourIndices points g)
    \<and> set (zigzag_optimize tourIndices points g) = set tourIndices
    \<and> is_tour n (zigzag_optimize tourIndices points g)
    \<and> zigzag_optimize tourIndices points g
        = map (\<lambda>k. zigzag_emitted tourIndices points ! k)
            (filter (\<lambda>k. zigzag_emitted tourIndices points ! k
                           \<notin> set (take k (zigzag_emitted tourIndices points)))
               [0..<length (zigzag_emitted tourIndices points)])"
proof -
  have l: "2 \<le> length tourIndices" using assms by (simp add: is_tour_length)
  have s: "set (zigzag_optimize tourIndices points g) = set tourIndices"
    unfolding zigzag_optimize_def by (simp add: set_spread_Set zigzag_emitted_set[OF l])
  have d: "distinct (zigzag_optimize tourIndices points g)"
    unfolding zigzag_optimize_def by (rule distinct_spread_Set)
  have "is_tour n (zigzag_optimize tourIndices points g)"
    using s d assms(2) by (simp add: is_tour_iff)
  moreover have "zigzag_optimize tourIndices points g
        = map (\<lambda>k. zigzag_emitted tourIndices points ! k)
            (filter (\<lambda>k. zigzag_emitted tourIndices points ! k
                           \<notin> set (take k (zigzag_emitted tourIndices points)))
               [0..<length (zigzag_emitted tourIndices points)])"
    unfolding zigzag_optimize_def by (rule spread_Set_first_occurrences)
  ultimately show ?thesis using s d by blast
qed

theorem zigzag_optimize_keeps_every_id_witness:
  "3 \<le> (4::nat) \<and> is_tour 4 [0, 2, 1, 3]
   \<and> length [\<lparr>p_x = 0, p_y = 0, p_angle = 0, p_id = 0\<rparr>,
              \<lparr>p_x = 1, p_y = 0, p_angle = 0, p_id = 1\<rparr>,
              \<lparr>p_x = 2, p_y = 0, p_angle = 0, p_id = 2\<rparr>,
              \<lparr>p_x = 3, p_y = 0, p_angle = 0, p_id = 3\<rparr>] = 4
   \<and> is_tour 4 (zigzag_optimize [0, 2, 1, 3]
         [\<lparr>p_x = 0, p_y = 0, p_angle = 0, p_id = 0\<rparr>,
          \<lparr>p_x = 1, p_y = 0, p_angle = 0, p_id = 1\<rparr>,
          \<lparr>p_x = 2, p_y = 0, p_angle = 0, p_id = 2\<rparr>,
          \<lparr>p_x = 3, p_y = 0, p_angle = 0, p_id = 3\<rparr>] [])"
proof -
  have u: "[0..<4] = [0, 1, 2, 3]" by (simp add: upt_rec)
  have h: "is_tour 4 [0, 2, 1, 3]" by (simp add: is_tour_def u)
  let ?pts = "[\<lparr>p_x = 0, p_y = 0, p_angle = 0, p_id = 0\<rparr>,
          \<lparr>p_x = 1, p_y = 0, p_angle = 0, p_id = 1\<rparr>,
          \<lparr>p_x = 2, p_y = 0, p_angle = 0, p_id = 2\<rparr>,
          \<lparr>p_x = 3, p_y = 0, p_angle = 0, p_id = 3\<rparr>]"
  have l: "length ?pts = 4" by simp
  have n: "3 \<le> (4::nat)" by simp
  have "is_tour 4 (zigzag_optimize [0, 2, 1, 3] ?pts [])"
    using zigzag_optimize_keeps_every_id [OF n h l, of "[]"] by blast
  then show ?thesis using h by simp
qed

section \<open>Lengths of tours\<close>

text \<open>
  \<^verbatim>\<open>calculateTourLength\<close> adds the consecutive edges to the running sum, and then the
  edge from the last city back to the first.
\<close>

lemma path_cost_snoc:
  "xs \<noteq> [] \<Longrightarrow> path_cost g a (xs @ [y]) = num_add (path_cost g a xs) (g ! last xs ! y)"
proof (induction g a xs rule: path_cost.induct)
  case (3 g acc x y' r)
  then show ?case by simp
qed simp_all

lemma fold_path_cost:
  "m < length t \<Longrightarrow>
   fold (\<lambda>i acc. num_add acc (g ! (t ! i) ! (t ! (i + 1)))) [0..<m] a = path_cost g a (take (m + 1) t)"
proof (induction m)
  case 0
  then show ?case by (cases t) auto
next
  case (Suc m)
  have ne: "take (m + 1) t \<noteq> []" using Suc.prems by (cases t) auto
  have l: "last (take (m + 1) t) = t ! m"
  proof -
    have "last (take (m + 1) t) = take (m + 1) t ! (length (take (m + 1) t) - 1)"
      using ne by (rule last_conv_nth)
    also have "length (take (m + 1) t) - 1 = m" using Suc.prems by simp
    finally show ?thesis by simp
  qed
  have t: "take (Suc m + 1) t = take (m + 1) t @ [t ! (m + 1)]"
    using Suc.prems by (simp add: take_Suc_conv_app_nth)
  have "fold (\<lambda>i acc. num_add acc (g ! (t ! i) ! (t ! (i + 1)))) [0..<Suc m] a
      = num_add (path_cost g a (take (m + 1) t)) (g ! (t ! m) ! (t ! (m + 1)))"
    using Suc by simp
  also have "\<dots> = path_cost g a (take (Suc m + 1) t)"
    unfolding t using path_cost_snoc[OF ne, of g a "t ! (m + 1)"] l by simp
  finally show ?case .
qed

lemma calculateTourLength_path_cost:
  assumes "t \<noteq> []"
  shows "calculateTourLength t g = num_add (path_cost g (Num 0) t) (g ! last t ! hd t)"
proof -
  obtain m where m: "length t = Suc m" using assms by (cases t) auto
  have "fold (\<lambda>i acc. num_add acc (g ! (t ! i) ! (t ! ((i + 1) mod Suc m)))) [0..<m] (Num 0)
      = fold (\<lambda>i acc. num_add acc (g ! (t ! i) ! (t ! (i + 1)))) [0..<m] (Num 0)"
    by (intro fold_cong) auto
  also have "\<dots> = path_cost g (Num 0) (take (m + 1) t)"
    by (rule fold_path_cost) (simp add: m)
  also have "take (m + 1) t = t" using m by simp
  finally have f: "fold (\<lambda>i acc. num_add acc (g ! (t ! i) ! (t ! ((i + 1) mod Suc m)))) [0..<m] (Num 0)
      = path_cost g (Num 0) t" .
  have "calculateTourLength t g
      = num_add (path_cost g (Num 0) t) (g ! (t ! m) ! (t ! 0))"
    unfolding calculateTourLength_def Let_def m using f by simp
  moreover have "last t = t ! m" using assms m by (simp add: last_conv_nth)
  moreover have "hd t = t ! 0" using assms by (simp add: hd_conv_nth)
  ultimately show ?thesis by simp
qed

text \<open>The exact lengths.\<close>

lemma path_length_append:
  "xs \<noteq> [] \<Longrightarrow> ys \<noteq> [] \<Longrightarrow>
   path_length g (xs @ ys) = path_length g xs + g ! last xs ! hd ys + path_length g ys"
proof (induction g xs rule: path_length.induct)
  case (2 g x)
  then show ?case by (cases ys) auto
qed auto

lemma path_length_snoc:
  "xs \<noteq> [] \<Longrightarrow> path_length g (xs @ [y]) = path_length g xs + g ! last xs ! y"
  by (simp add: path_length_append)

lemma path_length_rev:
  assumes "symmetric g n" "\<forall>x\<in>set xs. x < n"
  shows "path_length g (rev xs) = path_length g xs"
  using assms(2)
proof (induction xs rule: induct_list012)
  case (3 x y r)
  have "path_length g (rev (x # y # r)) = path_length g (rev (y # r) @ [x])" by simp
  also have "\<dots> = path_length g (rev (y # r)) + g ! last (rev (y # r)) ! x"
    by (rule path_length_snoc) simp
  also have "last (rev (y # r)) = y" by simp
  finally show ?case using 3 assms(1) by (simp add: symmetric_def)
qed simp_all

section \<open>2-opt\<close>

text \<open>The copy loop reverses the segment between \<open>i + 1\<close> and \<open>j\<close>.\<close>

lemma reverse_fold_nth:
  "length (fold (\<lambda>k newTour. newTour[i + 1 + k := t ! (j - k)]) [0..<m] t0) = length t0
   \<and> (\<forall>p<length t0.
         fold (\<lambda>k newTour. newTour[i + 1 + k := t ! (j - k)]) [0..<m] t0 ! p
         = (if i + 1 \<le> p \<and> p < i + 1 + m then t ! (j - (p - (i + 1))) else t0 ! p))"
proof (induction m)
  case 0
  then show ?case by auto
next
  case (Suc m)
  then show ?case by (auto simp: nth_list_update less_Suc_eq)
qed

lemma length_reverse_segment [simp]: "length (reverse_segment t i j) = length t"
  unfolding reverse_segment_def using reverse_fold_nth[of i t j "j - i" t] by simp

lemma reverse_segment_eq:
  assumes "i < j" "j < length t"
  shows "reverse_segment t i j
           = take (i + 1) t @ rev (take (j - i) (drop (i + 1) t)) @ drop (j + 1) t"
proof (intro nth_equalityI allI impI)
  show "length (reverse_segment t i j)
      = length (take (i + 1) t @ rev (take (j - i) (drop (i + 1) t)) @ drop (j + 1) t)"
    using assms by simp
next
  fix p assume "p < length (reverse_segment t i j)"
  then have p: "p < length t" by simp
  have r: "reverse_segment t i j ! p
         = (if i + 1 \<le> p \<and> p < i + 1 + (j - i) then t ! (j - (p - (i + 1))) else t ! p)"
    unfolding reverse_segment_def using reverse_fold_nth[of i t j "j - i" t] p by blast
  consider "p \<le> i" | "i + 1 \<le> p" "p \<le> j" | "j < p" by linarith
  then show "reverse_segment t i j ! p
      = (take (i + 1) t @ rev (take (j - i) (drop (i + 1) t)) @ drop (j + 1) t) ! p"
  proof cases
    case 1
    then show ?thesis using r assms by (simp add: nth_append)
  next
    case 2
    have l1: "length (take (i + 1) t) = i + 1" using assms by simp
    have l2: "length (rev (take (j - i) (drop (i + 1) t))) = j - i" using assms by simp
    have a: "\<not> p < i + 1" using 2 by simp
    have b: "p - (i + 1) < j - i" using 2 assms by linarith
    have "(take (i + 1) t @ rev (take (j - i) (drop (i + 1) t)) @ drop (j + 1) t) ! p
        = rev (take (j - i) (drop (i + 1) t)) ! (p - (i + 1))"
      using a b by (simp only: nth_append l1 l2 if_False if_True)
    also have "\<dots> = take (j - i) (drop (i + 1) t) ! (j - i - Suc (p - (i + 1)))"
      using b assms by (subst rev_nth) simp_all
    also have "\<dots> = t ! (i + 1 + (j - i - Suc (p - (i + 1))))"
      using b assms by simp
    also have "i + 1 + (j - i - Suc (p - (i + 1))) = j - (p - (i + 1))"
      using 2 assms by linarith
    finally show ?thesis using r 2 assms by simp
  next
    case 3
    have l1: "length (take (i + 1) t) = i + 1" using assms by simp
    have l2: "length (rev (take (j - i) (drop (i + 1) t))) = j - i" using assms by simp
    have a: "\<not> p < i + 1" using 3 assms by simp
    have b: "\<not> p - (i + 1) < j - i" using 3 assms by linarith
    have "(take (i + 1) t @ rev (take (j - i) (drop (i + 1) t)) @ drop (j + 1) t) ! p
        = drop (j + 1) t ! (p - (i + 1) - (j - i))"
      using a b by (simp only: nth_append l1 l2 if_False)
    also have "\<dots> = t ! (j + 1 + (p - (i + 1) - (j - i)))"
      by (rule nth_drop) (use assms in simp)
    also have "j + 1 + (p - (i + 1) - (j - i)) = p" using 3 assms by linarith
    finally have e: "(take (i + 1) t @ rev (take (j - i) (drop (i + 1) t)) @ drop (j + 1) t) ! p
        = t ! p" .
    have "\<not> (i + 1 \<le> p \<and> p < i + 1 + (j - i))" using 3 assms by linarith
    then have "reverse_segment t i j ! p = t ! p" using r by (simp only: if_False)
    then show ?thesis using e by simp
  qed
qed

lemma set_reverse_segment:
  assumes "i < j" "j < length t"
  shows "set (reverse_segment t i j) = set t"
proof -
  have "set (reverse_segment t i j)
      = set (take (i + 1) t) \<union> set (take (j - i) (drop (i + 1) t)) \<union> set (drop (j + 1) t)"
    by (simp add: reverse_segment_eq[OF assms] Un_assoc)
  also have "\<dots> = set (take (i + 1) t @ take (j - i) (drop (i + 1) t) @ drop (j - i) (drop (i + 1) t))"
    using assms by (simp add: Un_assoc add.commute)
  also have "\<dots> = set t" by (simp only: append_take_drop_id)
  finally show ?thesis .
qed


text \<open>
  On a symmetric matrix a reversal changes the length of the tour by exactly the
  difference that the source compares.
\<close>

lemma tour_length_reverse_segment:
  assumes sym: "symmetric g n" and el: "\<forall>x\<in>set t. x < n" and len: "length t = n"
    and ij: "i < j" "j < n"
  shows "tour_length g (reverse_segment t i j)
       = tour_length g t
         - (g ! (t ! i) ! (t ! (i + 1)) + g ! (t ! j) ! (t ! ((j + 1) mod n)))
         + (g ! (t ! i) ! (t ! j) + g ! (t ! (i + 1)) ! (t ! ((j + 1) mod n)))"
proof -
  define A where "A = take (i + 1) t"
  define S where "S = take (j - i) (drop (i + 1) t)"
  define B where "B = drop (j + 1) t"
  have t: "t = A @ S @ B"
  proof -
    have "drop (j - i) (drop (i + 1) t) = B" unfolding B_def using ij by simp
    then have "drop (i + 1) t = S @ B" unfolding S_def by (metis append_take_drop_id)
    then show ?thesis unfolding A_def by (metis append_take_drop_id)
  qed
  have r: "reverse_segment t i j = A @ rev S @ B"
    unfolding A_def S_def B_def using ij len by (intro reverse_segment_eq) simp_all
  have lA: "length A = i + 1" unfolding A_def using ij len by simp
  have lS: "length S = j - i" unfolding S_def using ij len by simp
  have A: "A \<noteq> []" and S: "S \<noteq> []" using lA lS ij by auto
  have ti: "t ! i = last A"
  proof -
    have "last A = A ! (length A - 1)" using A by (rule last_conv_nth)
    also have "\<dots> = A ! i" using lA by simp
    also have "\<dots> = t ! i" unfolding A_def by simp
    finally show ?thesis by simp
  qed
  have t0: "t ! 0 = hd A"
  proof -
    have "hd A = A ! 0" using A by (rule hd_conv_nth)
    also have "\<dots> = t ! 0" unfolding A_def by simp
    finally show ?thesis by simp
  qed
  have ti1: "t ! (i + 1) = hd S"
  proof -
    have "hd S = S ! 0" using S by (rule hd_conv_nth)
    also have "\<dots> = drop (i + 1) t ! 0" unfolding S_def using ij by simp
    also have "\<dots> = t ! (i + 1 + 0)" by (rule nth_drop) (use ij len in simp)
    finally show ?thesis by simp
  qed
  have tj: "t ! j = last S"
  proof -
    have "last S = S ! (j - i - 1)" using S lS by (simp add: last_conv_nth)
    also have "\<dots> = drop (i + 1) t ! (j - i - 1)" unfolding S_def using ij by simp
    also have "\<dots> = t ! (i + 1 + (j - i - 1))" by (rule nth_drop) (use ij len in simp)
    also have "i + 1 + (j - i - 1) = j" using ij by simp
    finally show ?thesis by simp
  qed
  have elS: "\<forall>x\<in>set S. x < n" using el unfolding S_def
    by (meson in_set_dropD in_set_takeD)
  have pr: "path_length g (rev S) = path_length g S" by (rule path_length_rev[OF sym elS])
  have in_n: "last A < n" "hd S < n" "last S < n" "hd A < n"
    using el A S t by (auto simp: )
  have symm: "\<And>a b. a < n \<Longrightarrow> b < n \<Longrightarrow> g ! a ! b = g ! b ! a"
    using sym by (simp add: symmetric_def)
  show ?thesis
  proof (cases "B = []")
    case True
    then have "j + 1 = n" unfolding B_def using ij len by simp
    then have m: "t ! ((j + 1) mod n) = hd A" using t0 by simp
    have 1: "tour_length g t = path_length g A + g ! last A ! hd S + path_length g S
               + g ! last S ! hd A"
      using A S True by (subst t) (simp add: tour_length_def path_length_append)
    have 2: "tour_length g (reverse_segment t i j)
           = path_length g A + g ! last A ! last S + path_length g S + g ! hd S ! hd A"
      using A S True
      by (simp add: r tour_length_def path_length_append pr hd_rev last_rev)
    show ?thesis unfolding 1 2 ti ti1 tj m by simp
  next
    case False
    then have jn: "j + 1 < n" unfolding B_def using len by simp
    have hB: "hd B = t ! (j + 1)"
      unfolding B_def using jn len by (intro hd_drop_conv_nth) simp
    have m: "t ! ((j + 1) mod n) = hd B" using jn hB by simp
    have 1: "tour_length g t = path_length g A + g ! last A ! hd S + path_length g S
               + g ! last S ! hd B + path_length g B + g ! last B ! hd A"
      using A S False by (subst t) (simp add: tour_length_def path_length_append)
    have 2: "tour_length g (reverse_segment t i j)
           = path_length g A + g ! last A ! last S + path_length g S
               + g ! hd S ! hd B + path_length g B + g ! last B ! hd A"
      using A S False
      by (simp add: r tour_length_def path_length_append pr hd_rev last_rev)
    show ?thesis unfolding 1 2 ti ti1 tj m by simp
  qed
qed

text \<open>
  A reversal that the comparison of the rounded sums accepts makes the exact sum of the
  two edges smaller: rounding is monotone.
\<close>

lemma improving_exact:
  assumes "improving g n t (i, j)"
  shows "g ! (t ! i) ! (t ! j) + g ! (t ! (i + 1)) ! (t ! ((j + 1) mod n))
       < g ! (t ! i) ! (t ! (i + 1)) + g ! (t ! j) ! (t ! ((j + 1) mod n))"
proof (rule ccontr)
  assume "\<not> ?thesis"
  then have "g ! (t ! i) ! (t ! (i + 1)) + g ! (t ! j) ! (t ! ((j + 1) mod n))
           \<le> g ! (t ! i) ! (t ! j) + g ! (t ! (i + 1)) ! (t ! ((j + 1) mod n))" by simp
  from round_double_mono[OF this] assms show False
    by (simp add: improving_def num_less_iff)
qed

lemma scan_pairs_range: "(i, j) \<in> set (scan_pairs n) \<Longrightarrow> i < j \<and> j < n"
  by (auto simp: scan_pairs_def)

lemma length_sweep [simp]: "length (fst (sweep g n ps t)) = length t"
  by (induction ps arbitrary: t) auto

lemma sweep_not_longer:
  assumes sym: "symmetric g n"
  shows "\<forall>x\<in>set t. x < n \<Longrightarrow> length t = n \<Longrightarrow> \<forall>p\<in>set ps. fst p < snd p \<and> snd p < n \<Longrightarrow>
     set (fst (sweep g n ps t)) = set t \<and> tour_length g (fst (sweep g n ps t)) \<le> tour_length g t"
proof (induction ps arbitrary: t)
  case Nil
  then show ?case by simp
next
  case (Cons p ps)
  obtain i j where p: "p = (i, j)" by (cases p)
  have ij: "i < j" "j < n" using Cons.prems(3) p by auto
  show ?case
  proof (cases "improving g n t p")
    case False
    then show ?thesis using Cons by simp
  next
    case True
    let ?t = "reverse_segment t i j"
    have s: "set ?t = set t" using ij Cons.prems(2) by (simp add: set_reverse_segment)
    have l: "tour_length g ?t < tour_length g t"
      using improving_exact[OF True[unfolded p]]
        tour_length_reverse_segment[OF sym Cons.prems(1,2) ij]
      by simp
    have "set (fst (sweep g n ps ?t)) = set ?t
        \<and> tour_length g (fst (sweep g n ps ?t)) \<le> tour_length g ?t"
      using Cons.prems s by (intro Cons.IH) simp_all
    then show ?thesis using True s l by (simp add: p)
  qed
qed


text \<open>The nested loops of a pass are the sweep over the pairs of the scan.\<close>

lemma two_opt_steps_sweep:
  "fold (\<lambda>p st. two_opt_step g n (fst p) (snd p) st) ps (t, b)
     = (fst (sweep g n (filter (\<lambda>p. \<not> (fst p = 0 \<and> snd p = n - 1)) ps) t),
        b \<or> snd (sweep g n (filter (\<lambda>p. \<not> (fst p = 0 \<and> snd p = n - 1)) ps) t))"
proof (induction ps arbitrary: t b)
  case Nil
  then show ?case by simp
next
  case (Cons p ps)
  show ?case
  proof (cases "snd p = n - 1 \<and> fst p = 0")
    case True
    then have "two_opt_step g n (fst p) (snd p) (t, b) = (t, b)"
      by (simp add: two_opt_step_def)
    then show ?thesis using True by (simp add: Cons.IH)
  next
    case False
    then have f: "\<not> (fst p = 0 \<and> snd p = n - 1)" by blast
    show ?thesis
    proof (cases "improving g n t p")
      case True
      then have "two_opt_step g n (fst p) (snd p) (t, b) = (reverse_segment t (fst p) (snd p), True)"
        using False by (auto simp add: two_opt_step_def improving_def case_prod_beta Let_def)
      then show ?thesis using True f by (simp add: Cons.IH)
    next
      case no: False
      then have "two_opt_step g n (fst p) (snd p) (t, b) = (t, b)"
        using False by (auto simp add: two_opt_step_def improving_def case_prod_beta Let_def)
      then show ?thesis using no f by (simp add: Cons.IH)
    qed
  qed
qed

lemma nested_fold_pairs:
  "fold (\<lambda>i st. fold (\<lambda>j st. F i j st) (js i) st) is st
     = fold (\<lambda>p st. F (fst p) (snd p) st) (concat (map (\<lambda>i. map (Pair i) (js i)) is)) st"
  by (induction "is" arbitrary: st) (simp_all add: fold_map comp_def)

lemma scan_pairs_filter:
  "scan_pairs n = filter (\<lambda>p. \<not> (fst p = 0 \<and> snd p = n - 1))
                    (concat (map (\<lambda>i. map (Pair i) [i + 2..<n]) [0..<n - 1]))"
  by (simp add: scan_pairs_def filter_concat filter_map comp_def)

lemma two_opt_pass_sweep: "two_opt_pass g n t = sweep g n (scan_pairs n) t"
  unfolding two_opt_pass_def
  by (simp only: nested_fold_pairs[where F = "two_opt_step g n"] two_opt_steps_sweep
        scan_pairs_filter[symmetric]) simp

lemma two_opt_while_sweep:
  "length t = n \<Longrightarrow>
   two_opt_while g n cap t b k = (if b then improve_sweep_ref g (cap - k) t else t)"
proof (induction "cap - k" arbitrary: t b k)
  case 0
  then show ?case by (subst two_opt_while.simps) simp
next
  case (Suc d)
  then have c: "cap - k = Suc (cap - (k + 1))" "k < cap" "d = cap - (k + 1)" by simp_all
  show ?case
  proof (cases b)
    case False
    then show ?thesis by (subst two_opt_while.simps) simp
  next
    case True
    have l: "length (fst (sweep g n (scan_pairs n) t)) = n" using Suc.prems by simp
    show ?thesis
      apply (subst two_opt_while.simps)
      apply (subst c(1))
      using True c(2) Suc.prems Suc.hyps(1)[OF c(3) l]
      apply (simp add: two_opt_pass_sweep Let_def)
      done
  qed
qed

lemma improve_eq_sweep: "improve tour g maxIterations = improve_sweep_ref g maxIterations tour"
  by (simp add: improve_def two_opt_while_sweep)

lemma improve_sweep_ref_not_longer:
  assumes sym: "symmetric g n"
  shows "\<forall>x\<in>set t. x < n \<Longrightarrow> length t = n \<Longrightarrow>
     set (improve_sweep_ref g cap t) = set t \<and> length (improve_sweep_ref g cap t) = n
     \<and> tour_length g (improve_sweep_ref g cap t) \<le> tour_length g t"
proof (induction cap arbitrary: t)
  case 0
  then show ?case by simp
next
  case (Suc cap)
  let ?t = "fst (sweep g n (scan_pairs n) t)"
  have r: "\<forall>p\<in>set (scan_pairs n). fst p < snd p \<and> snd p < n"
    using scan_pairs_range by auto
  have s: "set ?t = set t" "tour_length g ?t \<le> tour_length g t"
    using sweep_not_longer[OF sym Suc.prems r] by simp_all
  have l: "length ?t = n" using Suc.prems by simp
  have ih: "set (improve_sweep_ref g cap ?t) = set ?t \<and> length (improve_sweep_ref g cap ?t) = n
     \<and> tour_length g (improve_sweep_ref g cap ?t) \<le> tour_length g ?t"
    using Suc.prems s(1) l by (intro Suc.IH) simp_all
  show ?case using ih s l Suc.prems(2) by (auto simp: Let_def)
qed

text \<open>
  C4. The claim does not hold for the lengths that the program computes: the sums of
  \<^verbatim>\<open>calculateTourLength\<close> are rounded. With \<open>u = 2^-53\<close>, on the symmetric non-negative
  matrix of doubles below, \<^verbatim>\<open>improve\<close> turns the tour \<open>0, 1, 2, 3\<close>, of computed length
  \<open>1 + 2 u\<close>, into the tour \<open>0, 1, 3, 2\<close>, of computed length \<open>1 + 4 u\<close>. (The exact
  lengths are \<open>1 + 4 u\<close> and \<open>1 + 3 u\<close>.)
\<close>

theorem improve_computed_length_counterexample:
  "matrix [[0, 1 / 9007199254740992, 1, 1 / 4503599627370496],
           [1 / 9007199254740992, 0, 1, 1 / 9007199254740992],
           [1, 1, 0, 1 / 9007199254740992],
           [1 / 4503599627370496, 1 / 9007199254740992, 1 / 9007199254740992, 0]] 4
   \<and> symmetric [[0, 1 / 9007199254740992, 1, 1 / 4503599627370496],
           [1 / 9007199254740992, 0, 1, 1 / 9007199254740992],
           [1, 1, 0, 1 / 9007199254740992],
           [1 / 4503599627370496, 1 / 9007199254740992, 1 / 9007199254740992, 0]] 4
   \<and> non_negative [[0, 1 / 9007199254740992, 1, 1 / 4503599627370496],
           [1 / 9007199254740992, 0, 1, 1 / 9007199254740992],
           [1, 1, 0, 1 / 9007199254740992],
           [1 / 4503599627370496, 1 / 9007199254740992, 1 / 9007199254740992, 0]] 4
   \<and> doubles [[0, 1 / 9007199254740992, 1, 1 / 4503599627370496],
           [1 / 9007199254740992, 0, 1, 1 / 9007199254740992],
           [1, 1, 0, 1 / 9007199254740992],
           [1 / 4503599627370496, 1 / 9007199254740992, 1 / 9007199254740992, 0]] 4
   \<and> is_tour 4 [0, 1, 2, 3]
   \<and> improve [0, 1, 2, 3]
        [[0, 1 / 9007199254740992, 1, 1 / 4503599627370496],
         [1 / 9007199254740992, 0, 1, 1 / 9007199254740992],
         [1, 1, 0, 1 / 9007199254740992],
         [1 / 4503599627370496, 1 / 9007199254740992, 1 / 9007199254740992, 0]] 100
      = [0, 1, 3, 2]
   \<and> calculateTourLength [0, 1, 2, 3]
        [[0, 1 / 9007199254740992, 1, 1 / 4503599627370496],
         [1 / 9007199254740992, 0, 1, 1 / 9007199254740992],
         [1, 1, 0, 1 / 9007199254740992],
         [1 / 4503599627370496, 1 / 9007199254740992, 1 / 9007199254740992, 0]]
      = Num (1 + 2 / 9007199254740992)
   \<and> calculateTourLength [0, 1, 3, 2]
        [[0, 1 / 9007199254740992, 1, 1 / 4503599627370496],
         [1 / 9007199254740992, 0, 1, 1 / 9007199254740992],
         [1, 1, 0, 1 / 9007199254740992],
         [1 / 4503599627370496, 1 / 9007199254740992, 1 / 9007199254740992, 0]]
      = Num (1 + 4 / 9007199254740992)
   \<and> \<not> calculateTourLength
          (improve [0, 1, 2, 3]
             [[0, 1 / 9007199254740992, 1, 1 / 4503599627370496],
              [1 / 9007199254740992, 0, 1, 1 / 9007199254740992],
              [1, 1, 0, 1 / 9007199254740992],
              [1 / 4503599627370496, 1 / 9007199254740992, 1 / 9007199254740992, 0]] 100)
          [[0, 1 / 9007199254740992, 1, 1 / 4503599627370496],
           [1 / 9007199254740992, 0, 1, 1 / 9007199254740992],
           [1, 1, 0, 1 / 9007199254740992],
           [1 / 4503599627370496, 1 / 9007199254740992, 1 / 9007199254740992, 0]]
        \<le> calculateTourLength [0, 1, 2, 3]
            [[0, 1 / 9007199254740992, 1, 1 / 4503599627370496],
             [1 / 9007199254740992, 0, 1, 1 / 9007199254740992],
             [1, 1, 0, 1 / 9007199254740992],
             [1 / 4503599627370496, 1 / 9007199254740992, 1 / 9007199254740992, 0]]"
proof -
  let ?g = "[[0, 1 / 9007199254740992, 1, 1 / 4503599627370496],
             [1 / 9007199254740992, 0, 1, 1 / 9007199254740992],
             [1, 1, 0, 1 / 9007199254740992],
             [1 / 4503599627370496, 1 / 9007199254740992, 1 / 9007199254740992, 0]] :: graph"
  note rd = round_double_scaled[where s = 52] round_double_scaled[where s = 103]
    round_double_scaled[where s = 104] round_double_scaled[where s = 105]
    round_half_even_def Let_def
  have u: "[0..<4] = [0, 1, 2, 3]" by (simp add: upt_rec)
  have m: "matrix ?g 4" by (simp add: matrix_def)
  have "\<forall>i\<in>set [0..<4]. \<forall>j\<in>set [0..<4]. ?g ! i ! j = ?g ! j ! i \<and> 0 \<le> ?g ! i ! j
          \<and> is_double (?g ! i ! j)"
    unfolding u by (simp add: is_double_def rd)
  then have s: "symmetric ?g 4" and nn: "non_negative ?g 4" and d: "doubles ?g 4"
    by (simp_all add: symmetric_def non_negative_def doubles_def)
  have t: "is_tour 4 [0, 1, 2, 3]" by (simp add: is_tour_def u)
  have l1: "calculateTourLength [0, 1, 2, 3] ?g = Num (1 + 2 / 9007199254740992)"
    by (simp add: calculateTourLength_def u rd)
  have l2: "calculateTourLength [0, 1, 3, 2] ?g = Num (1 + 4 / 9007199254740992)"
    by (simp add: calculateTourLength_def u rd)
  have sp: "scan_pairs 4 = [(0, 2), (1, 3)]" by code_simp
  have r: "reverse_segment [0, 1, 2, 3] 1 3 = [0, 1, 3, 2]" by code_simp
  have i1: "\<not> improving ?g 4 [0, 1, 2, 3] (0, 2)" by (simp add: improving_def num_less_iff rd)
  have i2: "improving ?g 4 [0, 1, 2, 3] (1, 3)" by (simp add: improving_def num_less_iff rd)
  have i3: "\<not> improving ?g 4 [0, 1, 3, 2] (0, 2)" by (simp add: improving_def num_less_iff rd)
  have i4: "\<not> improving ?g 4 [0, 1, 3, 2] (1, 3)" by (simp add: improving_def num_less_iff rd)
  have s1: "sweep ?g 4 [(0, 2), (1, 3)] [0, 1, 2, 3] = ([0, 1, 3, 2], True)"
    using i1 i2 r by simp
  have s2: "sweep ?g 4 [(0, 2), (1, 3)] [0, 1, 3, 2] = ([0, 1, 3, 2], False)"
    using i3 i4 by simp
  have c: "(100::nat) = Suc (Suc 98)" by simp
  have l4: "length [0, 1, 2, 3 :: nat] = 4" "length [0, 1, 3, 2 :: nat] = 4" by simp_all
  have e1: "improve_sweep_ref ?g (Suc (Suc 98)) [0, 1, 2, 3]
          = improve_sweep_ref ?g (Suc 98) [0, 1, 3, 2]"
    by (simp only: improve_sweep_ref.simps Let_def l4 sp s1 fst_conv snd_conv if_True)
  have e2: "improve_sweep_ref ?g (Suc 98) [0, 1, 3, 2] = [0, 1, 3, 2]"
    by (simp only: improve_sweep_ref.simps Let_def l4 sp s2 fst_conv snd_conv if_False)
  have e: "improve [0, 1, 2, 3] ?g 100 = [0, 1, 3, 2]"
    unfolding improve_eq_sweep c e1 e2 ..
  show ?thesis unfolding e l1 l2 using m s nn d t by simp
qed

text \<open>
  C4, amended. For every symmetric \<open>n\<close> by \<open>n\<close> matrix, every input tour that is a
  permutation of \<open>0, ..., n - 1\<close> and every iteration cap, the exact length of the tour
  returned by \<^verbatim>\<open>twoOpt.improve\<close>, the sum of its edge distances as real numbers with
  the edge back to the start, is at most the exact length of the input tour: a
  reversal that the program accepts on the rounded sums makes the exact length
  smaller. (The entries need not be non-negative.) The length that
  \<^verbatim>\<open>calculateTourLength\<close> computes can grow, by rounding.
\<close>

theorem improve_exact_length_not_longer:
  assumes "matrix g n" "symmetric g n" "is_tour n tour"
  shows "tour_length g (improve tour g maxIterations) \<le> tour_length g tour"
proof -
  have "\<forall>x\<in>set tour. x < n" "length tour = n"
    using assms(3) by (auto simp: is_tour_iff is_tour_length)
  from improve_sweep_ref_not_longer[OF assms(2) this, of maxIterations]
  show ?thesis by (simp add: improve_eq_sweep)
qed

theorem improve_exact_length_not_longer_witness:
  "matrix [[0, 1, 2, 1], [1, 0, 1, 2], [2, 1, 0, 1], [1, 2, 1, 0]] 4
   \<and> symmetric [[0, 1, 2, 1], [1, 0, 1, 2], [2, 1, 0, 1], [1, 2, 1, 0]] 4
   \<and> is_tour 4 [0, 2, 1, 3]
   \<and> tour_length [[0, 1, 2, 1], [1, 0, 1, 2], [2, 1, 0, 1], [1, 2, 1, 0]]
        (improve [0, 2, 1, 3] [[0, 1, 2, 1], [1, 0, 1, 2], [2, 1, 0, 1], [1, 2, 1, 0]] 100)
      \<le> tour_length [[0, 1, 2, 1], [1, 0, 1, 2], [2, 1, 0, 1], [1, 2, 1, 0]] [0, 2, 1, 3]
   \<and> improve [0, 2, 1, 3] [[0, 1, 2, 1], [1, 0, 1, 2], [2, 1, 0, 1], [1, 2, 1, 0]] 100
      = [0, 1, 2, 3]"
proof -
  let ?g = "[[0, 1, 2, 1], [1, 0, 1, 2], [2, 1, 0, 1], [1, 2, 1, 0]] :: graph"
  have u: "[0..<4] = [0, 1, 2, 3]" by (simp add: upt_rec)
  have m: "matrix ?g 4" by (simp add: matrix_def)
  have "\<forall>i\<in>set [0..<4]. \<forall>j\<in>set [0..<4]. ?g ! i ! j = ?g ! j ! i"
    unfolding u by simp
  then have s: "symmetric ?g 4" by (simp add: symmetric_def)
  have t: "is_tour 4 [0, 2, 1, 3]" by (simp add: is_tour_def u)
  have e: "improve [0, 2, 1, 3] ?g 100 = [0, 1, 2, 3]" by code_simp
  from improve_exact_length_not_longer [OF m s t, of 100] m s t e show ?thesis by simp
qed

text \<open>
  C5. The claim reads \<^verbatim>\<open>improve\<close> as a first-improvement search that scans again from
  the top after every reversal. The source has no \<^verbatim>\<open>break\<close>: after a reversal the two
  \<^verbatim>\<open>for\<close> loops go on with the next pair on the changed tour. On five cities the two
  procedures return different tours, of lengths 7 and 8.
\<close>

theorem improve_restart_counterexample:
  "improve [0, 1, 2, 3, 4]
     [[0, 1, 2, 2, 2], [1, 0, 3, 2, 1], [2, 3, 0, 1, 2], [2, 2, 1, 0, 3], [2, 1, 2, 3, 0]] 100
   \<noteq> improve_restart_ref
       [[0, 1, 2, 2, 2], [1, 0, 3, 2, 1], [2, 3, 0, 1, 2], [2, 2, 1, 0, 3], [2, 1, 2, 3, 0]] 100
       [0, 1, 2, 3, 4]"
proof -
  have "improve [0, 1, 2, 3, 4]
     [[0, 1, 2, 2, 2], [1, 0, 3, 2, 1], [2, 3, 0, 1, 2], [2, 2, 1, 0, 3], [2, 1, 2, 3, 0]] 100
     = [0, 3, 2, 4, 1]" by code_simp
  moreover have "improve_restart_ref
       [[0, 1, 2, 2, 2], [1, 0, 3, 2, 1], [2, 3, 0, 1, 2], [2, 2, 1, 0, 3], [2, 1, 2, 3, 0]] 100
       [0, 1, 2, 3, 4] = [0, 2, 3, 1, 4]" by code_simp
  ultimately show ?thesis by simp
qed

text \<open>
  C5, amended. \<^verbatim>\<open>improve\<close> is the sweep: in a pass it visits every pair \<open>(i, j)\<close> of the
  scan once, in order, applies the reversal at each pair that improves the tour as it
  is at that moment, marks the pass as improving and goes on with the next pair; it
  scans again from the top only after the pass is over, when the pass has applied a
  reversal and the iteration cap is not reached.
\<close>

theorem improve_is_sweep:
  "improve tour g maxIterations = improve_sweep_ref g maxIterations tour"
  by (rule improve_eq_sweep)

section \<open>The feasibility ceiling\<close>

text \<open>
  C3. The claim says that both exact solvers return \<^verbatim>\<open>null\<close> when asked for \<open>n > 20\<close>.
  Neither \<^verbatim>\<open>bruteForceExact\<close> nor \<^verbatim>\<open>heldKarp\<close> tests \<open>n\<close>: each returns its object
  \<^verbatim>\<open>{ tour, length }\<close> whenever it returns, also for 21 cities.
\<close>

theorem solvers_without_ceiling_counterexample:
  "Some (Object (bruteForceExact (replicate 21 (replicate 21 1)) 21)) \<noteq> Some Null
   \<and> map_option Object (heldKarp (replicate 21 (replicate 21 1)) 21) \<noteq> Some Null"
  by (cases "heldKarp (replicate 21 (replicate 21 1)) 21") simp_all

text \<open>
  C3, amended. The ceiling is in the dispatcher: \<^verbatim>\<open>findOptimal(graph, n)\<close> returns
  \<^verbatim>\<open>null\<close> for every \<open>n > 20\<close> and every matrix, before it calls a solver, and for no
  \<open>n \<le> 20\<close>; in particular \<^verbatim>\<open>findOptimal(graph, 25)\<close> is \<^verbatim>\<open>null\<close> for every matrix.
\<close>

theorem findOptimal_ceiling:
  "(20 < n \<longrightarrow> findOptimal g n = Some Null)
   \<and> (n \<le> 20 \<longrightarrow> findOptimal g n \<noteq> Some Null)
   \<and> findOptimal g 25 = Some Null"
  by (cases "heldKarp g n") (auto simp: findOptimal_def Let_def)

theorem findOptimal_ceiling_witness:
  "(20::nat) < 25 \<and> findOptimal (replicate 25 (replicate 25 1)) 25 = Some Null
   \<and> (4::nat) \<le> 20
   \<and> findOptimal [[0, 1, 2, 1], [1, 0, 1, 2], [2, 1, 0, 1], [1, 2, 1, 0]] 4 \<noteq> Some Null"
  using findOptimal_ceiling [of 25 "replicate 25 (replicate 25 1)"]
        findOptimal_ceiling [of 4 "[[0, 1, 2, 1], [1, 0, 1, 2], [2, 1, 0, 1], [1, 2, 1, 0]]"]
  by simp


end
